theory Spec2Isabelle
  imports Main
begin

section \<open>Constants of the observer\<close>

text \<open>
  The module-level constants of \<^verbatim>\<open>src/index.js\<close>. Times are milliseconds.
\<close>

definition REQUEST_INTERVAL :: int where
  "REQUEST_INTERVAL = 10000"

definition REQUEST_COOL_DOWN :: int where
  "REQUEST_COOL_DOWN = 30000"

definition PAGE_SIZE :: int where
  "PAGE_SIZE = 100"

definition ITEM_PROPERTIES :: "string list" where
  "ITEM_PROPERTIES =
     [''appid'', ''name'', ''icon_url'', ''sell_listings'', ''classid'', ''instanceid'']"

section \<open>Values of the response body\<close>

text \<open>
  An item of a page is whatever \<^verbatim>\<open>response.json()\<close> produced: a JSON value. Numbers
  are integers (prices are integer cents). An object is its list of properties; a lookup
  takes the first binding of a key. \<open>JUndefined\<close> is what reading an absent property yields.
\<close>

datatype jsval =
    JUndefined
  | JNull
  | JBool bool
  | JNum int
  | JStr string
  | JArr "jsval list"
  | JObj "(string \<times> jsval) list"

datatype error =
    TypeError
  | RangeError
  | NetworkError
  | StatusError nat int
  | ParseError
  | EmptyResponse
  | PageUnsuccessful nat
  | PersistenceError

text \<open>
  \<^verbatim>\<open>v[k]\<close> for a fixed property name \<open>k\<close>: reading a property of \<^verbatim>\<open>undefined\<close> or
  \<^verbatim>\<open>null\<close> throws a TypeError; an object yields the bound value or \<^verbatim>\<open>undefined\<close>;
  every other JSON value has none of the property names the observer reads
  (\<^verbatim>\<open>sell_price\<close>, \<^verbatim>\<open>hash_name\<close>, \<^verbatim>\<open>asset_description\<close> and the item properties), so
  the read yields \<^verbatim>\<open>undefined\<close>.
\<close>

fun js_get :: "jsval \<Rightarrow> string \<Rightarrow> error + jsval" where
  "js_get JUndefined k = Inl TypeError"
| "js_get JNull k = Inl TypeError"
| "js_get (JObj kvs) k = Inr (case map_of kvs k of None \<Rightarrow> JUndefined | Some v \<Rightarrow> v)"
| "js_get (JBool b) k = Inr JUndefined"
| "js_get (JNum n) k = Inr JUndefined"
| "js_get (JStr s) k = Inr JUndefined"
| "js_get (JArr vs) k = Inr JUndefined"

section \<open>pushToDB: the batch of upserts of one page\<close>

type_synonym document = "string \<rightharpoonup> jsval"

text \<open>
  One operation of the bulk:
  \<^verbatim>\<open>bulk.find({hash_name: item['hash_name']}).upsert().updateOne({$set: toSet})\<close>.
\<close>

record upsert_op =
  hash_name :: jsval
  toSet :: document

text \<open>
  The right-hand side of the assignment to \<^verbatim>\<open>toSet[prop]\<close>:
  \<^verbatim>\<open>item[prop] !== undefined ? item[prop] : item['asset_description'][prop]\<close>.
\<close>

definition prop_value :: "jsval \<Rightarrow> string \<Rightarrow> error + jsval" where
  "prop_value item prop =
     (case js_get item prop of
        Inl e \<Rightarrow> Inl e
      | Inr v \<Rightarrow>
          if v \<noteq> JUndefined then Inr v
          else (case js_get item ''asset_description'' of
                  Inl e \<Rightarrow> Inl e
                | Inr d \<Rightarrow> js_get d prop))"

text \<open>
  The inner loop, over \<open>ITEM_PROPERTIES\<close>:
  \<^verbatim>\<open>if (this.config['properties'].includes(prop)) toSet[prop] = ...\<close>.
\<close>

fun set_props :: "string list \<Rightarrow> string list \<Rightarrow> jsval \<Rightarrow> document \<Rightarrow> error + document" where
  "set_props wl [] item acc = Inr acc"
| "set_props wl (prop # props) item acc =
     (if prop \<in> set wl then
        (case prop_value item prop of
           Inl e \<Rightarrow> Inl e
         | Inr v \<Rightarrow> set_props wl props item (acc(prop \<mapsto> v)))
      else set_props wl props item acc)"

text \<open>
  The body of the loop over the items: build \<open>toSet\<close>, then queue the upsert. \<open>wl\<close> is
  \<^verbatim>\<open>this.config['properties']\<close>, the configured list of properties.
\<close>

definition item_op :: "string list \<Rightarrow> jsval \<Rightarrow> error + upsert_op" where
  "item_op wl item =
     (case js_get item ''sell_price'' of
        Inl e \<Rightarrow> Inl e
      | Inr price \<Rightarrow>
          (case set_props wl ITEM_PROPERTIES item [''sell_price'' \<mapsto> price] of
             Inl e \<Rightarrow> Inl e
           | Inr ts \<Rightarrow>
               (case js_get item ''hash_name'' of
                  Inl e \<Rightarrow> Inl e
                | Inr h \<Rightarrow> Inr \<lparr>hash_name = h, toSet = ts\<rparr>)))"

text \<open>The loop over the items of the page; the first throw leaves the loop.\<close>

fun build_bulk :: "string list \<Rightarrow> jsval list \<Rightarrow> error + upsert_op list" where
  "build_bulk wl [] = Inr []"
| "build_bulk wl (item # items) =
     (case item_op wl item of
        Inl e \<Rightarrow> Inl e
      | Inr op \<Rightarrow>
          (case build_bulk wl items of
             Inl e \<Rightarrow> Inl e
           | Inr ops \<Rightarrow> Inr (op # ops)))"

text \<open>
  Modelled from the spec: the document store (an external MongoDB collection, not part of
  the sources). It holds one document per item key; an upsert with \<^verbatim>\<open>$set\<close> overwrites
  the fields of \<open>toSet\<close> in the document of that key and leaves its other fields alone, and
  creates the document, with its key, when there is none.
\<close>

type_synonym mongo_collection = "jsval \<rightharpoonup> document"

definition apply_upsert :: "mongo_collection \<Rightarrow> upsert_op \<Rightarrow> mongo_collection" where
  "apply_upsert c op =
     c(hash_name op \<mapsto>
         (case c (hash_name op) of
            None \<Rightarrow> [''hash_name'' \<mapsto> hash_name op] ++ toSet op
          | Some d \<Rightarrow> d ++ toSet op))"

text \<open>
  What \<^verbatim>\<open>bulk.execute()\<close> did with a batch that holds operations, decided by the store
  and the driver: the whole batch was written, or the promise was rejected after the
  operations marked in the mask had been written (an unordered batch keeps going after a
  failed operation).
\<close>

datatype exec_outcome = ExecOk | ExecFailed "bool list"

definition masked :: "bool list \<Rightarrow> 'a list \<Rightarrow> 'a list" where
  "masked written ops = map snd (filter fst (zip written ops))"

text \<open>
  \<^verbatim>\<open>pushToDB\<close>. A page without items queues no operation, and the mongodb driver rejects
  \<^verbatim>\<open>execute()\<close> of a batch to which no operation was added, whatever the store: the
  promise that \<^verbatim>\<open>pushToDB\<close> returns is rejected and nothing is written.
\<close>

definition pushToDB ::
    "exec_outcome \<Rightarrow> string list \<Rightarrow> jsval list \<Rightarrow> mongo_collection
       \<Rightarrow> (error + unit) \<times> mongo_collection" where
  "pushToDB outcome wl items c =
     (case build_bulk wl items of
        Inl e \<Rightarrow> (Inl e, c)
      | Inr ops \<Rightarrow>
          if ops = [] then (Inl PersistenceError, c)
          else
            (case outcome of
               ExecOk \<Rightarrow> (Inr (), foldl apply_upsert c ops)
             | ExecFailed written \<Rightarrow>
                 (Inl PersistenceError, foldl apply_upsert c (masked written ops))))"

section \<open>The remote API and the environment\<close>

text \<open>
  The query of one page: \<^verbatim>\<open>&appid=${appID}&start=${fetched}&count=${PAGE_SIZE}\<close>.
\<close>

record request =
  q_appid :: int
  q_start :: int
  q_count :: int

text \<open>
  The body of a response, after \<^verbatim>\<open>response.json()\<close>: not JSON at all (the promise is
  rejected), a value that fails \<^verbatim>\<open>!page || Object.keys(page).length === 0\<close>, or a page
  \<^verbatim>\<open>{success, total_count, results}\<close> with a boolean, an integer and an array.
\<close>

record page =
  success :: bool
  total_count :: int
  results :: "jsval list"

datatype body = BodyUnparsable | BodyEmpty | BodyPage page

record response =
  status :: int
  body :: body

datatype reply = Rejected | Resolved response

text \<open>
  Everything the observer does not decide. Replies, waits and the outcome of a batch write
  are indexed by the number of requests issued before; \<open>disk_ok t\<close> says whether writing
  the time \<open>t\<close> to \<^verbatim>\<open>last-update.txt\<close> succeeds. \<open>queue_ms\<close> is the time a call spends
  in the throttled queue before it is dispatched, \<open>net_ms\<close> the time until its reply is
  there, \<open>late_ms\<close> how late the cool-down timer fires, \<open>store_ms\<close> the time of the
  batch write.
\<close>

record world =
  reply :: "nat \<Rightarrow> request \<Rightarrow> reply"
  queue_ms :: "nat \<Rightarrow> nat"
  net_ms :: "nat \<Rightarrow> nat"
  late_ms :: "nat \<Rightarrow> nat"
  exec :: "nat \<Rightarrow> exec_outcome"
  store_ms :: "nat \<Rightarrow> nat"
  disk_ok :: "int \<Rightarrow> bool"
  connects :: bool
  connect_ms :: nat

text \<open>What the observer does that can be seen from outside: its log lines, its requests, its timers.\<close>

datatype event =
    EvRequest request int
  | EvThrottled
  | EvCooldown int
  | EvFetched int int nat
  | EvFetching int
  | EvFetchedAll int
  | EvCycleStart
  | EvCycleComplete
  | EvCycleError error
  | EvWriteWatermark int bool
  | EvTimer int
  | EvStartupError

text \<open>
  The fields of the \<^verbatim>\<open>SteamMarketObserver\<close> instance the claims are about, with the
  content of the collection and of \<^verbatim>\<open>last-update.txt\<close> (\<open>None\<close>: no such file), the
  clock \<^verbatim>\<open>Date.now()\<close>, the number of requests issued so far and the trace of events.
\<close>

record observer =
  updateInterval :: int
  lastUpdate :: int
  properties :: "string list"
  appIDs :: "int list"
  collection :: mongo_collection
  lastUpdateFile :: "int option"
  clock :: int
  requests :: nat
  trace :: "event list"

section \<open>fetchMarketData\<close>

text \<open>The three variables of the loop: \<^verbatim>\<open>pageIndex\<close>, \<^verbatim>\<open>total\<close>, \<^verbatim>\<open>fetched\<close>.\<close>

record progress =
  pageIndex :: nat
  total :: int
  fetched :: int

definition page_request :: "int \<Rightarrow> progress \<Rightarrow> request" where
  "page_request appID p = \<lparr>q_appid = appID, q_start = fetched p, q_count = PAGE_SIZE\<rparr>"

text \<open>
  How one pass through the body of the \<^verbatim>\<open>do ... while\<close> ends: at \<^verbatim>\<open>continue\<close>, at its
  last statement, or at a \<^verbatim>\<open>throw\<close> (its own, or one of \<^verbatim>\<open>fetch\<close>, \<^verbatim>\<open>json\<close>,
  \<^verbatim>\<open>pushToDB\<close>).
\<close>

datatype step = Throttled | PageDone | Fatal error

definition fetch_iteration :: "world \<Rightarrow> int \<Rightarrow> progress \<Rightarrow> observer \<Rightarrow> step \<times> progress \<times> observer" where
  "fetch_iteration w appID p s =
     (let k = requests s;
          req = page_request appID p;
          t0 = clock s + int (queue_ms w k);
          s1 = s\<lparr>requests := Suc k, clock := t0 + int (net_ms w k),
                trace := trace s @ [EvRequest req t0]\<rparr>
      in case reply w k req of
           Rejected \<Rightarrow> (Fatal NetworkError, p, s1)
         | Resolved r \<Rightarrow>
             if status r = 429 then
               (Throttled, p,
                s1\<lparr>clock := clock s1 + REQUEST_COOL_DOWN + int (late_ms w k),
                   trace := trace s1 @ [EvThrottled, EvCooldown REQUEST_COOL_DOWN]\<rparr>)
             else if status r \<noteq> 200 then (Fatal (StatusError (pageIndex p) (status r)), p, s1)
             else
               (case body r of
                  BodyUnparsable \<Rightarrow> (Fatal ParseError, p, s1)
                | BodyEmpty \<Rightarrow> (Fatal EmptyResponse, p, s1)
                | BodyPage pg \<Rightarrow>
                    if \<not> success pg then (Fatal (PageUnsuccessful (pageIndex p)), p, s1)
                    else
                      (let p1 = (if total p \<noteq> total_count pg
                                 then p\<lparr>total := total_count pg\<rparr> else p);
                           pushed = pushToDB (exec w k) (properties s1) (results pg) (collection s1);
                           s2 = s1\<lparr>collection := snd pushed,
                                   clock := clock s1 + int (store_ms w k)\<rparr>
                       in case fst pushed of
                            Inl e \<Rightarrow> (Fatal e, p1, s2)
                          | Inr u \<Rightarrow>
                              (let p2 = p1\<lparr>fetched := fetched p1 + int (length (results pg))\<rparr>
                               in (PageDone, p2\<lparr>pageIndex := Suc (pageIndex p2)\<rparr>,
                                   s2\<lparr>trace := trace s2 @
                                        [EvFetched (fetched p2) (total p2) (pageIndex p2)]\<rparr>)))))"

text \<open>
  How a loop ends, with \<open>OutOfFuel\<close> for a loop that is still running when the bound on
  the number of its iterations is reached.
\<close>

datatype outcome = Finished | Threw error | OutOfFuel

text \<open>
  The \<^verbatim>\<open>do { ... } while (fetched < total)\<close> of one app: the body runs first, and both
  \<^verbatim>\<open>continue\<close> and the end of the body go to the test.
\<close>

fun fetchMarketData_pages ::
    "nat \<Rightarrow> world \<Rightarrow> int \<Rightarrow> progress \<Rightarrow> observer \<Rightarrow> outcome \<times> progress \<times> observer" where
  "fetchMarketData_pages 0 w appID p s = (OutOfFuel, p, s)"
| "fetchMarketData_pages (Suc n) w appID p s =
     (case fetch_iteration w appID p s of
        (r, p', s') \<Rightarrow>
          (case r of
             Fatal e \<Rightarrow> (Threw e, p', s')
           | Throttled \<Rightarrow>
               if fetched p' < total p' then fetchMarketData_pages n w appID p' s'
               else (Finished, p', s')
           | PageDone \<Rightarrow>
               if fetched p' < total p' then fetchMarketData_pages n w appID p' s'
               else (Finished, p', s')))"

definition initial_progress :: progress where
  "initial_progress = \<lparr>pageIndex = 1, total = 1, fetched = 0\<rparr>"

text \<open>The \<^verbatim>\<open>for (let appID of this.appIDs)\<close>; \<open>n\<close> bounds the iterations spent on each app.\<close>

fun fetchMarketData_apps :: "nat \<Rightarrow> world \<Rightarrow> int list \<Rightarrow> observer \<Rightarrow> outcome \<times> observer" where
  "fetchMarketData_apps n w [] s = (Finished, s)"
| "fetchMarketData_apps n w (appID # rest) s =
     (case fetchMarketData_pages n w appID initial_progress
             (s\<lparr>trace := trace s @ [EvFetching appID]\<rparr>) of
        (r, p', s') \<Rightarrow>
          (case r of
             Finished \<Rightarrow>
               fetchMarketData_apps n w rest (s'\<lparr>trace := trace s' @ [EvFetchedAll appID]\<rparr>)
           | Threw e \<Rightarrow> (Threw e, s')
           | OutOfFuel \<Rightarrow> (OutOfFuel, s')))"

definition fetchMarketData :: "nat \<Rightarrow> world \<Rightarrow> observer \<Rightarrow> outcome \<times> observer" where
  "fetchMarketData n w s = fetchMarketData_apps n w (appIDs s) s"

section \<open>The cycle and its scheduling\<close>

definition setTimeout :: "int \<Rightarrow> observer \<Rightarrow> observer" where
  "setTimeout ms s = s\<lparr>trace := trace s @ [EvTimer ms]\<rparr>"

text \<open>\<^verbatim>\<open>writeLastUpdateTime\<close>: a failed write is logged and swallowed.\<close>

definition writeLastUpdateTime :: "world \<Rightarrow> observer \<Rightarrow> observer" where
  "writeLastUpdateTime w s =
     (if disk_ok w (lastUpdate s)
      then s\<lparr>lastUpdateFile := Some (lastUpdate s),
             trace := trace s @ [EvWriteWatermark (lastUpdate s) True]\<rparr>
      else s\<lparr>trace := trace s @ [EvWriteWatermark (lastUpdate s) False]\<rparr>)"

text \<open>
  \<^verbatim>\<open>updateMarketListingsData\<close>: the result says how the fetch pass ended; the timer for
  the next cycle is armed after the \<^verbatim>\<open>try\<close>/\<^verbatim>\<open>catch\<close>, whichever way it went. A pass
  that is still running has armed nothing yet.
\<close>

definition updateMarketListingsData :: "nat \<Rightarrow> world \<Rightarrow> observer \<Rightarrow> outcome \<times> observer" where
  "updateMarketListingsData n w s =
     (case fetchMarketData n w (s\<lparr>trace := trace s @ [EvCycleStart]\<rparr>) of
        (r, s') \<Rightarrow>
          (case r of
             OutOfFuel \<Rightarrow> (OutOfFuel, s')
           | Finished \<Rightarrow>
               (let s1 = writeLastUpdateTime w (s'\<lparr>lastUpdate := clock s'\<rparr>);
                    s2 = s1\<lparr>trace := trace s1 @ [EvCycleComplete]\<rparr>
                in (Finished, setTimeout (updateInterval s2) s2))
           | Threw e \<Rightarrow>
               (let s1 = s'\<lparr>trace := trace s' @ [EvCycleError e]\<rparr>
                in (Threw e, setTimeout (updateInterval s1) s1))))"








section \<open>Observations on the store, the state and the trace\<close>

text \<open>The value of field \<open>f\<close> in the document of key \<open>k\<close>, if there is one.\<close>

definition field_at :: "mongo_collection \<Rightarrow> jsval \<Rightarrow> string \<Rightarrow> jsval option" where
  "field_at c k f = (case c k of None \<Rightarrow> None | Some d \<Rightarrow> d f)"

text \<open>
  Nothing stored in \<open>c\<close> is lost in \<open>c'\<close>: every document of \<open>c\<close> is still there, with
  at least the fields it had.
\<close>

definition persists :: "mongo_collection \<Rightarrow> mongo_collection \<Rightarrow> bool" where
  "persists c c' = (\<forall>k d. c k = Some d \<longrightarrow> (\<exists>d'. c' k = Some d' \<and> dom d \<subseteq> dom d'))"

text \<open>
  What fetching never touches: the configuration, the watermark and its file; the store
  only gains, the clock and the request counter only advance, the trace only grows.
\<close>

definition evolves :: "observer \<Rightarrow> observer \<Rightarrow> bool" where
  "evolves s s' =
     (updateInterval s' = updateInterval s \<and> lastUpdate s' = lastUpdate s
      \<and> properties s' = properties s \<and> appIDs s' = appIDs s
      \<and> lastUpdateFile s' = lastUpdateFile s
      \<and> persists (collection s) (collection s')
      \<and> clock s \<le> clock s' \<and> requests s \<le> requests s'
      \<and> (\<exists>tr. trace s' = trace s @ tr))"

text \<open>The offsets of the requests of a trace, and the counts of its \<^verbatim>\<open>Fetched ...\<close> lines.\<close>

definition request_offset :: "event \<Rightarrow> int option" where
  "request_offset ev = (case ev of EvRequest req t \<Rightarrow> Some (q_start req) | _ \<Rightarrow> None)"

definition fetched_count :: "event \<Rightarrow> int option" where
  "fetched_count ev = (case ev of EvFetched f t i \<Rightarrow> Some f | _ \<Rightarrow> None)"

definition offsets :: "event list \<Rightarrow> int list" where
  "offsets tr = List.map_filter request_offset tr"

definition fetched_counts :: "event list \<Rightarrow> int list" where
  "fetched_counts tr = List.map_filter fetched_count tr"



text \<open>
  The states in which the \<^verbatim>\<open>do ... while\<close> of an app starts a pass through its body:
  the first pass, and every pass after one that did not throw and left
  \<^verbatim>\<open>fetched < total\<close> true.
\<close>

inductive loop_state :: "world \<Rightarrow> int \<Rightarrow> observer \<Rightarrow> progress \<Rightarrow> observer \<Rightarrow> bool"
  for w :: world and appID :: int and s0 :: observer where
  first_pass: "loop_state w appID s0 initial_progress s0"
| next_pass: "loop_state w appID s0 p s \<Longrightarrow> fetch_iteration w appID p s = (r, p', s')
     \<Longrightarrow> r = Throttled \<or> r = PageDone \<Longrightarrow> fetched p' < total p'
     \<Longrightarrow> loop_state w appID s0 p' s'"

section \<open>Concrete environments\<close>

text \<open>
  An environment in which every timing is fixed, every batch write and every write of the
  watermark succeeds and the store can be reached; only the replies vary.
\<close>

definition steady_world :: "(nat \<Rightarrow> request \<Rightarrow> reply) \<Rightarrow> world" where
  "steady_world answer =
     \<lparr>reply = answer, queue_ms = (\<lambda>k. 10000), net_ms = (\<lambda>k. 250), late_ms = (\<lambda>k. 2),
      exec = (\<lambda>k. ExecOk), store_ms = (\<lambda>k. 40), disk_ok = (\<lambda>t. True),
      connects = True, connect_ms = 120\<rparr>"

definition ok_page :: "int \<Rightarrow> jsval list \<Rightarrow> reply" where
  "ok_page n items =
     Resolved \<lparr>status = 200, body = BodyPage \<lparr>success = True, total_count = n, results = items\<rparr>\<rparr>"

definition http_status :: "int \<Rightarrow> reply" where
  "http_status code = Resolved \<lparr>status = code, body = BodyEmpty\<rparr>"

text \<open>An observer that has loaded a configuration for the apps 730 and 570 and never ran.\<close>

definition fresh_observer :: observer where
  "fresh_observer =
     \<lparr>updateInterval = 1800000, lastUpdate = 0, properties = [''name'', ''classid''],
      appIDs = [730, 570], collection = Map.empty, lastUpdateFile = None,
      clock = 1700000000000, requests = 0, trace = []\<rparr>"

text \<open>An item with its name only in the nested description, and one with no description.\<close>

definition ak_item :: jsval where
  "ak_item =
     JObj [(''hash_name'', JStr ''AK-47 | Redline''), (''sell_price'', JNum 1250),
           (''classid'', JStr ''310777''),
           (''asset_description'', JObj [(''name'', JStr ''AK-47''), (''classid'', JStr ''9'')])]"

definition bare_item :: jsval where
  "bare_item = JObj [(''hash_name'', JStr ''Case Key''), (''sell_price'', JNum 250)]"

text \<open>The item of the scenario of the spec: no name of its own, the name \<open>AK-47\<close> in its description.\<close>

definition nameless_ak :: jsval where
  "nameless_ak =
     JObj [(''hash_name'', JStr ''AK-47 | Redline''), (''sell_price'', JNum 1250),
           (''asset_description'', JObj [(''name'', JStr ''AK-47'')])]"

text \<open>A collection that already holds a document of that item, with an icon.\<close>

definition stocked_collection :: mongo_collection where
  "stocked_collection =
     [JStr ''AK-47 | Redline'' \<mapsto>
        [''hash_name'' \<mapsto> JStr ''AK-47 | Redline'', ''sell_price'' \<mapsto> JNum 1100,
         ''icon_url'' \<mapsto> JStr ''old.png'']]"

text \<open>
  A server whose every page is successful, announces 5 items and holds none, in front of a
  store that writes every batch it is given.
\<close>

definition hollow_world :: world where
  "hollow_world = steady_world (\<lambda>k req. ok_page 5 [])"

text \<open>A server that answers the first request with 429 and then serves its single item.\<close>

definition busy_world :: world where
  "busy_world = steady_world (\<lambda>k req. if k = 0 then http_status 429 else ok_page 1 [ak_item])"

text \<open>A server with 250 items, served in pages of at most 100.\<close>

definition catalogue_world :: world where
  "catalogue_world =
     steady_world (\<lambda>k req. ok_page 250 (replicate (nat (min 100 (250 - q_start req))) ak_item))"


text \<open>A server whose single page of one item per app is always served.\<close>

definition calm_world :: world where
  "calm_world = steady_world (\<lambda>k req. ok_page 1 [ak_item])"

text \<open>A server whose page holds an item without description.\<close>

definition careless_world :: world where
  "careless_world = steady_world (\<lambda>k req. ok_page 2 [ak_item, bare_item])"



section \<open>The throttled queue\<close>

text \<open>
  Modelled from the spec: the rate limiter, \<^verbatim>\<open>new ThrottledQueue(REQUEST_INTERVAL, true, Promise)\<close>
  of the package \<^verbatim>\<open>node-throttled-queue\<close>, which is not part of the sources. It is a
  FIFO of pending calls, drained by a timer: when the timer fires and a call is pending,
  the call at the head is dispatched, unless the last dispatch started less than the
  interval ago. \<open>started\<close> records the dispatched calls with the times their dispatch
  started.
\<close>

record 'a throttled_queue =
  interval :: int
  pending :: "'a list"
  last_start :: "int option"
  started :: "('a \<times> int) list"

definition ThrottledQueue :: "int \<Rightarrow> 'a throttled_queue" where
  "ThrottledQueue ms = \<lparr>interval = ms, pending = [], last_start = None, started = []\<rparr>"

text \<open>
  What happens to the queue, and when: a call is submitted (\<^verbatim>\<open>queue.resolve(fn)\<close>), or
  the timer of the queue fires. Nothing is assumed about the times.
\<close>

datatype 'a queue_event = Resolve 'a | TimerFires

fun queue_step :: "'a throttled_queue \<Rightarrow> int \<times> 'a queue_event \<Rightarrow> 'a throttled_queue" where
  "queue_step q (t, Resolve x) = q\<lparr>pending := pending q @ [x]\<rparr>"
| "queue_step q (t, TimerFires) =
     (case pending q of
        [] \<Rightarrow> q
      | x # xs \<Rightarrow>
          if (case last_start q of None \<Rightarrow> True | Some l \<Rightarrow> l + interval q \<le> t)
          then q\<lparr>pending := xs, last_start := Some t, started := started q @ [(x, t)]\<rparr>
          else q)"

definition queue_run :: "'a throttled_queue \<Rightarrow> (int \<times> 'a queue_event) list \<Rightarrow> 'a throttled_queue" where
  "queue_run q evs = foldl queue_step q evs"

text \<open>The calls submitted by a list of events, in the order of their submission.\<close>

definition submission :: "int \<times> 'a queue_event \<Rightarrow> 'a option" where
  "submission tev = (case snd tev of Resolve x \<Rightarrow> Some x | TimerFires \<Rightarrow> None)"

definition submitted :: "(int \<times> 'a queue_event) list \<Rightarrow> 'a list" where
  "submitted evs = List.map_filter submission evs"

text \<open>Consecutive times of a list are at least \<open>d\<close> apart.\<close>

fun spaced :: "int \<Rightarrow> int list \<Rightarrow> bool" where
  "spaced d [] = True"
| "spaced d [t] = True"
| "spaced d (t # u # ts) = (t + d \<le> u \<and> spaced d (u # ts))"

text \<open>
  What every step of the queue keeps: the starts are spaced, and \<open>last_start\<close> is the
  time of the last of them.
\<close>

definition queue_inv :: "'a throttled_queue \<Rightarrow> bool" where
  "queue_inv q =
     (spaced (interval q) (map snd (started q))
      \<and> last_start q = (if started q = [] then None else Some (snd (last (started q)))))"

text \<open>The queue of the observer, as its constructor makes it.\<close>

definition observer_queue :: "request throttled_queue" where
  "observer_queue = ThrottledQueue REQUEST_INTERVAL"

section \<open>Properties of pushToDB\<close>

lemma dom_set_props:
  "set_props wl props item acc = Inr ts \<Longrightarrow> dom ts = dom acc \<union> (set props \<inter> set wl)"
proof (induction props arbitrary: acc)
  case Nil
  then show ?case by simp
next
  case (Cons q props)
  show ?case
  proof (cases "q \<in> set wl")
    case True
    with Cons.prems obtain v where v: "prop_value item q = Inr v"
      and rest: "set_props wl props item (acc(q \<mapsto> v)) = Inr ts"
      by (auto split: sum.splits)
    have "dom ts = dom (acc(q \<mapsto> v)) \<union> (set props \<inter> set wl)"
      by (rule Cons.IH [OF rest])
    also have "dom (acc(q \<mapsto> v)) = insert q (dom acc)"
      by simp
    finally show ?thesis
      using True by auto
  next
    case False
    with Cons.prems have "set_props wl props item acc = Inr ts" by simp
    from Cons.IH [OF this] False show ?thesis by auto
  qed
qed

lemma set_props_other:
  "set_props wl props item acc = Inr ts \<Longrightarrow> f \<notin> set props \<inter> set wl \<Longrightarrow> ts f = acc f"
proof (induction props arbitrary: acc)
  case Nil
  then show ?case by simp
next
  case (Cons q props)
  show ?case
  proof (cases "q \<in> set wl")
    case True
    with Cons.prems obtain v where v: "prop_value item q = Inr v"
      and rest: "set_props wl props item (acc(q \<mapsto> v)) = Inr ts"
      by (auto split: sum.splits)
    from Cons.prems(2) True have "f \<noteq> q" "f \<notin> set props \<inter> set wl" by auto
    with Cons.IH [OF rest] show ?thesis by simp
  next
    case False
    with Cons.prems have "set_props wl props item acc = Inr ts" by simp
    from Cons.IH [OF this] Cons.prems(2) show ?thesis by auto
  qed
qed

lemma set_props_value:
  "set_props wl props item acc = Inr ts \<Longrightarrow> f \<in> set wl \<Longrightarrow>
     f \<in> set props \<or> (\<exists>v. prop_value item f = Inr v \<and> acc f = Some v) \<Longrightarrow>
     \<exists>v. prop_value item f = Inr v \<and> ts f = Some v"
proof (induction props arbitrary: acc)
  case Nil
  then show ?case by simp
next
  case (Cons q props)
  show ?case
  proof (cases "q \<in> set wl")
    case True
    with Cons.prems(1) obtain v where v: "prop_value item q = Inr v"
      and rest: "set_props wl props item (acc(q \<mapsto> v)) = Inr ts"
      by (auto split: sum.splits)
    have "f \<in> set props \<or> (\<exists>u. prop_value item f = Inr u \<and> (acc(q \<mapsto> v)) f = Some u)"
      using Cons.prems(3) v by (cases "f = q") auto
    from Cons.IH [OF rest Cons.prems(2) this] show ?thesis .
  next
    case False
    with Cons.prems(1) have rest: "set_props wl props item acc = Inr ts" by simp
    from False Cons.prems(2) have "f \<noteq> q" by auto
    with Cons.prems(3) have "f \<in> set props \<or> (\<exists>v. prop_value item f = Inr v \<and> acc f = Some v)"
      by auto
    from Cons.IH [OF rest Cons.prems(2) this] show ?thesis .
  qed
qed

lemma item_op_Inr:
  "item_op wl item = Inr op \<Longrightarrow>
     \<exists>price. js_get item ''sell_price'' = Inr price
       \<and> set_props wl ITEM_PROPERTIES item [''sell_price'' \<mapsto> price] = Inr (toSet op)
       \<and> js_get item ''hash_name'' = Inr (hash_name op)"
  by (auto simp: item_op_def split: sum.splits)

lemma sell_price_not_property: "''sell_price'' \<notin> set ITEM_PROPERTIES"
  by (simp add: ITEM_PROPERTIES_def)

lemma dom_item_op:
  assumes "item_op wl item = Inr op"
  shows "dom (toSet op) = {''sell_price''} \<union> (set ITEM_PROPERTIES \<inter> set wl)"
proof -
  from item_op_Inr [OF assms] obtain price where
    "set_props wl ITEM_PROPERTIES item [''sell_price'' \<mapsto> price] = Inr (toSet op)" by blast
  from dom_set_props [OF this] show ?thesis by simp
qed

lemma item_op_sell_price:
  assumes "item_op wl item = Inr op"
  shows "\<exists>price. js_get item ''sell_price'' = Inr price \<and> toSet op ''sell_price'' = Some price"
proof -
  from item_op_Inr [OF assms] obtain price where p: "js_get item ''sell_price'' = Inr price"
    and sp: "set_props wl ITEM_PROPERTIES item [''sell_price'' \<mapsto> price] = Inr (toSet op)" by blast
  from set_props_other [OF sp, of "''sell_price''"] sell_price_not_property
  have "toSet op ''sell_price'' = Some price" by simp
  with p show ?thesis by blast
qed

lemma item_op_property:
  assumes "item_op wl item = Inr op" and "f \<in> set wl" and "f \<in> set ITEM_PROPERTIES"
  shows "\<exists>v. prop_value item f = Inr v \<and> toSet op f = Some v"
proof -
  from item_op_Inr [OF assms(1)] obtain price where
    sp: "set_props wl ITEM_PROPERTIES item [''sell_price'' \<mapsto> price] = Inr (toSet op)" by blast
  from set_props_value [OF sp assms(2)] assms(3) show ?thesis by blast
qed

lemma js_get_error: "js_get v k = Inl e \<Longrightarrow> e = TypeError"
  by (cases v) auto

lemma prop_value_error: "prop_value item f = Inl e \<Longrightarrow> e = TypeError"
  by (auto simp: prop_value_def split: sum.splits if_splits dest: js_get_error)

lemma set_props_error: "set_props wl props item acc = Inl e \<Longrightarrow> e = TypeError"
  by (induction props arbitrary: acc) (auto split: if_splits sum.splits dest: prop_value_error)

lemma item_op_error: "item_op wl item = Inl e \<Longrightarrow> e = TypeError"
  by (auto simp: item_op_def split: sum.splits dest: js_get_error set_props_error)

lemma build_bulk_error: "build_bulk wl items = Inl e \<Longrightarrow> e = TypeError"
  by (induction items) (auto split: sum.splits dest: item_op_error)

lemma set_props_throws:
  "f \<in> set props \<Longrightarrow> f \<in> set wl \<Longrightarrow> prop_value item f = Inl e \<Longrightarrow>
     set_props wl props item acc = Inl TypeError"
proof (induction props arbitrary: acc)
  case Nil
  then show ?case by simp
next
  case (Cons q props)
  show ?case
  proof (cases "set_props wl (q # props) item acc")
    case (Inl e')
    then show ?thesis using set_props_error by blast
  next
    case (Inr ts)
    from set_props_value [OF Inr Cons.prems(2)] Cons.prems(1,3) show ?thesis by auto
  qed
qed

lemma build_bulk_throws:
  "item \<in> set items \<Longrightarrow> item_op wl item = Inl e \<Longrightarrow> build_bulk wl items = Inl TypeError"
proof (induction items)
  case Nil
  then show ?case by simp
next
  case (Cons x xs)
  then show ?case
    by (auto split: sum.splits dest: item_op_error build_bulk_error)
qed

lemma build_bulk_ops:
  "build_bulk wl items = Inr ops \<Longrightarrow> map (item_op wl) items = map Inr ops"
  by (induction items arbitrary: ops) (auto split: sum.splits)

lemma build_bulk_length: "build_bulk wl items = Inr ops \<Longrightarrow> length ops = length items"
  using build_bulk_ops [of wl items ops] map_eq_imp_length_eq by fastforce

lemma build_bulk_nth:
  "build_bulk wl items = Inr ops \<Longrightarrow> i < length items \<Longrightarrow> item_op wl (items ! i) = Inr (ops ! i)"
  using build_bulk_ops [of wl items ops] build_bulk_length [of wl items ops]
  by (metis nth_map)

text \<open>A page without items: the batch is empty and its execution is rejected.\<close>

lemma pushToDB_empty: "pushToDB outcome wl [] c = (Inl PersistenceError, c)"
  by (simp add: pushToDB_def)

lemma pushToDB_written:
  "fst (pushToDB outcome wl items c) = Inr u \<Longrightarrow>
     items \<noteq> [] \<and> outcome = ExecOk
     \<and> (\<exists>ops. build_bulk wl items = Inr ops \<and> snd (pushToDB outcome wl items c) = foldl apply_upsert c ops)"
  by (cases items) (auto simp: pushToDB_def split: sum.splits if_splits exec_outcome.splits)

lemma field_at_apply_upsert:
  "f \<notin> dom (toSet op) \<Longrightarrow> f \<noteq> ''hash_name'' \<Longrightarrow>
     field_at (apply_upsert c op) k f = field_at c k f"
  by (auto simp: field_at_def apply_upsert_def map_add_def split: option.splits)

lemma field_at_upserted:
  "toSet op f = Some v \<Longrightarrow> field_at (apply_upsert c op) (hash_name op) f = Some v"
  by (simp add: field_at_def apply_upsert_def map_add_def split: option.splits)

lemma field_at_foldl_upsert:
  "\<forall>op \<in> set ops. f \<notin> dom (toSet op) \<Longrightarrow> f \<noteq> ''hash_name'' \<Longrightarrow>
     field_at (foldl apply_upsert c ops) k f = field_at c k f"
  by (induction ops arbitrary: c) (simp_all add: field_at_apply_upsert)

lemma build_bulk_member:
  "build_bulk wl items = Inr ops \<Longrightarrow> op \<in> set ops \<Longrightarrow> \<exists>item \<in> set items. item_op wl item = Inr op"
proof (induction items arbitrary: ops)
  case Nil
  then show ?case by simp
next
  case (Cons x xs)
  from Cons.prems(1) obtain o1 os where o1: "item_op wl x = Inr o1"
    and os: "build_bulk wl xs = Inr os" and ops: "ops = o1 # os"
    by (auto split: sum.splits)
  show ?case
  proof (cases "op = o1")
    case True
    with o1 show ?thesis by simp
  next
    case False
    with Cons.prems(2) ops have "op \<in> set os" by simp
    from Cons.IH [OF os this] show ?thesis by auto
  qed
qed

lemma set_masked: "set (masked written ops) \<subseteq> set ops"
  by (auto simp: masked_def dest: set_zip_rightD)

lemma pushToDB_frame:
  assumes "f \<notin> set ITEM_PROPERTIES \<inter> set wl" and "f \<noteq> ''sell_price''" and "f \<noteq> ''hash_name''"
  shows "field_at (snd (pushToDB outcome wl items c)) k f = field_at c k f"
proof (cases "build_bulk wl items")
  case (Inl e)
  then show ?thesis by (simp add: pushToDB_def)
next
  case (Inr ops)
  have no: "\<forall>op \<in> set ops. f \<notin> dom (toSet op)"
  proof
    fix op assume "op \<in> set ops"
    from build_bulk_member [OF Inr this] obtain item where "item_op wl item = Inr op" by blast
    from dom_item_op [OF this] assms(1,2) show "f \<notin> dom (toSet op)" by simp
  qed
  then have no': "\<forall>op \<in> set (masked written ops). f \<notin> dom (toSet op)" for written
    using set_masked [of written ops] by blast
  show ?thesis
    using Inr field_at_foldl_upsert [OF no assms(3)] field_at_foldl_upsert [OF no' assms(3)]
    by (simp add: pushToDB_def split: exec_outcome.splits)
qed

lemma persists_refl: "persists c c"
  by (simp add: persists_def)

lemma persists_trans: "persists a b \<Longrightarrow> persists b c \<Longrightarrow> persists a c"
  unfolding persists_def by (meson subset_trans)

lemma persists_apply_upsert: "persists c (apply_upsert c op)"
  by (auto simp: persists_def apply_upsert_def)

lemma persists_foldl_upsert: "persists c (foldl apply_upsert c ops)"
proof (induction ops arbitrary: c)
  case Nil
  show ?case by (simp add: persists_refl)
next
  case (Cons op ops)
  from persists_trans [OF persists_apply_upsert Cons.IH] show ?case by simp
qed

lemma persists_pushToDB: "persists c (snd (pushToDB outcome wl items c))"
  by (simp add: pushToDB_def persists_refl persists_foldl_upsert
      split: sum.splits exec_outcome.splits)

text \<open>The upsert built for a concrete item.\<close>

lemma item_op_ak_item:
  "item_op [''name'', ''classid''] ak_item =
     Inr \<lparr>hash_name = JStr ''AK-47 | Redline'',
          toSet = [''sell_price'' \<mapsto> JNum 1250, ''name'' \<mapsto> JStr ''AK-47'',
                   ''classid'' \<mapsto> JStr ''310777'']\<rparr>"
  by (simp add: item_op_def ak_item_def ITEM_PROPERTIES_def prop_value_def)

text \<open>An item without description and without one of the configured properties.\<close>

lemma item_op_throws:
  assumes "f \<in> set wl" and "f \<in> set ITEM_PROPERTIES"
    and "js_get item f = Inr JUndefined" and "js_get item ''asset_description'' = Inr JUndefined"
  shows "item_op wl item = Inl TypeError"
proof -
  have "prop_value item f = Inl TypeError"
    using assms(3,4) by (simp add: prop_value_def)
  from set_props_throws [OF assms(2,1) this]
  have "set_props wl ITEM_PROPERTIES item acc = Inl TypeError" for acc .
  then show ?thesis
    by (simp add: item_op_def split: sum.splits) (auto dest: js_get_error)
qed

section \<open>One pass through the body of the loop\<close>

lemma evolves_refl: "evolves s s"
  by (simp add: evolves_def persists_refl)

lemma evolves_trans: "evolves a b \<Longrightarrow> evolves b c \<Longrightarrow> evolves a c"
  unfolding evolves_def by (auto intro: persists_trans)

lemma evolves_trace: "evolves s (s\<lparr>trace := trace s @ tr\<rparr>)"
  by (simp add: evolves_def persists_refl)

lemma evolves_fetch_iteration:
  "fetch_iteration w appID p s = (r, p', s') \<Longrightarrow> evolves s s'"
  unfolding fetch_iteration_def Let_def
  by (auto simp: evolves_def persists_refl persists_pushToDB REQUEST_COOL_DOWN_def
      split: reply.splits if_splits body.splits sum.splits)

lemma requests_fetch_iteration:
  "fetch_iteration w appID p s = (r, p', s') \<Longrightarrow> requests s' = Suc (requests s)"
  unfolding fetch_iteration_def Let_def
  by (auto split: reply.splits if_splits body.splits sum.splits)

lemma trace_fetch_iteration:
  "fetch_iteration w appID p s = (r, p', s') \<Longrightarrow>
     \<exists>rest. trace s' = trace s @ EvRequest (page_request appID p) (clock s + int (queue_ms w (requests s))) # rest"
  unfolding fetch_iteration_def Let_def
  by (auto split: reply.splits if_splits body.splits sum.splits)

lemma iteration_throttled:
  assumes "reply w (requests s) (page_request appID p) = Resolved resp" and "status resp = 429"
  shows "fetch_iteration w appID p s =
     (Throttled, p,
      s\<lparr>requests := Suc (requests s),
        clock := clock s + int (queue_ms w (requests s)) + int (net_ms w (requests s))
                 + REQUEST_COOL_DOWN + int (late_ms w (requests s)),
        trace := trace s @ [EvRequest (page_request appID p) (clock s + int (queue_ms w (requests s))),
                            EvThrottled, EvCooldown REQUEST_COOL_DOWN]\<rparr>)"
  using assms by (simp add: fetch_iteration_def Let_def)

lemma iteration_Throttled_D:
  "fetch_iteration w appID p s = (Throttled, p', s') \<Longrightarrow>
     p' = p \<and> (\<exists>resp. reply w (requests s) (page_request appID p) = Resolved resp \<and> status resp = 429)"
  unfolding fetch_iteration_def Let_def
  by (auto split: reply.splits if_splits body.splits sum.splits)

lemma iteration_PageDone_pushed:
  "fetch_iteration w appID p s = (PageDone, p', s') \<Longrightarrow>
     \<exists>resp pg. reply w (requests s) (page_request appID p) = Resolved resp
        \<and> status resp = 200 \<and> body resp = BodyPage pg \<and> success pg
        \<and> fst (pushToDB (exec w (requests s)) (properties s) (results pg) (collection s)) = Inr ()
        \<and> collection s' = snd (pushToDB (exec w (requests s)) (properties s) (results pg) (collection s))
        \<and> p' = \<lparr>pageIndex = Suc (pageIndex p), total = total_count pg,
                 fetched = fetched p + int (length (results pg))\<rparr>"
  unfolding fetch_iteration_def Let_def
  by (auto split: reply.splits if_splits body.splits sum.splits)

lemma iteration_PageDone_D:
  assumes "fetch_iteration w appID p s = (PageDone, p', s')"
  shows "\<exists>resp pg. reply w (requests s) (page_request appID p) = Resolved resp
        \<and> status resp = 200 \<and> body resp = BodyPage pg \<and> success pg
        \<and> results pg \<noteq> []
        \<and> fst (pushToDB (exec w (requests s)) (properties s) (results pg) (collection s)) = Inr ()
        \<and> collection s' = snd (pushToDB (exec w (requests s)) (properties s) (results pg) (collection s))
        \<and> p' = \<lparr>pageIndex = Suc (pageIndex p), total = total_count pg,
                 fetched = fetched p + int (length (results pg))\<rparr>"
proof -
  from iteration_PageDone_pushed [OF assms] obtain resp pg where
    page: "reply w (requests s) (page_request appID p) = Resolved resp"
      "status resp = 200" "body resp = BodyPage pg" "success pg"
    and pushed: "fst (pushToDB (exec w (requests s)) (properties s) (results pg) (collection s)) = Inr ()"
    and rest: "collection s' = snd (pushToDB (exec w (requests s)) (properties s) (results pg) (collection s))"
      "p' = \<lparr>pageIndex = Suc (pageIndex p), total = total_count pg,
                 fetched = fetched p + int (length (results pg))\<rparr>"
    by blast
  from pushToDB_written [OF pushed] have "results pg \<noteq> []"
    by blast
  with page pushed rest show ?thesis
    by blast
qed

lemma iteration_page:
  assumes "reply w (requests s) (page_request appID p) = Resolved resp"
    and "status resp = 200" and "body resp = BodyPage pg" and "success pg"
    and "build_bulk (properties s) (results pg) = Inr ops" and "exec w (requests s) = ExecOk"
    and "results pg \<noteq> []"
  shows "\<exists>s'. fetch_iteration w appID p s =
            (PageDone, \<lparr>pageIndex = Suc (pageIndex p), total = total_count pg,
                        fetched = fetched p + int (length (results pg))\<rparr>, s')
          \<and> collection s' = foldl apply_upsert (collection s) ops
          \<and> requests s' = Suc (requests s) \<and> properties s' = properties s
          \<and> trace s' = trace s @
               [EvRequest (page_request appID p) (clock s + int (queue_ms w (requests s))),
                EvFetched (fetched p + int (length (results pg))) (total_count pg) (pageIndex p)]"
proof -
  from build_bulk_length [OF assms(5)] assms(7) have "ops \<noteq> []"
    by auto
  with assms show ?thesis
    by (simp add: fetch_iteration_def Let_def pushToDB_def)
qed

lemma iteration_fetched_mono:
  "fetch_iteration w appID p s = (r, p', s') \<Longrightarrow> fetched p \<le> fetched p'"
  unfolding fetch_iteration_def Let_def
  by (auto split: reply.splits if_splits body.splits sum.splits)

lemma iteration_PageDone_strict:
  "fetch_iteration w appID p s = (PageDone, p', s') \<Longrightarrow> fetched p < fetched p'"
  by (auto dest!: iteration_PageDone_D)

lemma offsets_append: "offsets (xs @ ys) = offsets xs @ offsets ys"
  by (simp add: offsets_def List.map_filter_def)

lemma fetched_counts_append: "fetched_counts (xs @ ys) = fetched_counts xs @ fetched_counts ys"
  by (simp add: fetched_counts_def List.map_filter_def)

lemma offsets_page: "offsets [EvRequest req t, EvFetched a b c] = [q_start req]"
  by (simp add: offsets_def request_offset_def)

lemma fetched_counts_page: "fetched_counts [EvRequest req t, EvFetched a b c] = [a]"
  by (simp add: fetched_counts_def fetched_count_def)

lemma build_bulk_replicate:
  "item_op wl item = Inr op \<Longrightarrow> build_bulk wl (replicate m item) = Inr (replicate m op)"
  by (induction m) simp_all

lemma iteration_push_throws:
  assumes "reply w (requests s) (page_request appID p) = Resolved resp"
    and "status resp = 200" and "body resp = BodyPage pg" and "success pg"
    and "build_bulk (properties s) (results pg) = Inl e"
  shows "\<exists>p' s'. fetch_iteration w appID p s = (Fatal e, p', s')
     \<and> collection s' = collection s \<and> fetched p' = fetched p"
  using assms by (simp add: fetch_iteration_def Let_def pushToDB_def)

lemma iteration_empty_page:
  assumes "reply w (requests s) (page_request appID p) = Resolved resp"
    and "status resp = 200" and "body resp = BodyPage pg" and "success pg"
    and "results pg = []"
  shows "\<exists>s'. fetch_iteration w appID p s =
            (Fatal PersistenceError,
             \<lparr>pageIndex = pageIndex p, total = total_count pg, fetched = fetched p\<rparr>, s')
          \<and> collection s' = collection s \<and> requests s' = Suc (requests s)
          \<and> lastUpdate s' = lastUpdate s \<and> lastUpdateFile s' = lastUpdateFile s"
  using assms by (simp add: fetch_iteration_def Let_def pushToDB_empty)

section \<open>The loop over the pages of one app\<close>

lemma pages_Suc:
  "fetch_iteration w appID p s = (r, p', s') \<Longrightarrow>
     fetchMarketData_pages (Suc n) w appID p s =
       (case r of
          Fatal e \<Rightarrow> (Threw e, p', s')
        | Throttled \<Rightarrow>
            if fetched p' < total p' then fetchMarketData_pages n w appID p' s' else (Finished, p', s')
        | PageDone \<Rightarrow>
            if fetched p' < total p' then fetchMarketData_pages n w appID p' s' else (Finished, p', s'))"
  by simp

lemma pages_exit:
  "fetch_iteration w appID p s = (r, p', s') \<Longrightarrow> r = Throttled \<or> r = PageDone \<Longrightarrow>
     fetchMarketData_pages (Suc n) w appID p s =
       (if total p' \<le> fetched p' then (Finished, p', s') else fetchMarketData_pages n w appID p' s')"
  by auto

lemma pages_throw:
  "fetch_iteration w appID p s = (Fatal e, p', s') \<Longrightarrow>
     fetchMarketData_pages (Suc n) w appID p s = (Threw e, p', s')"
  by simp

lemma pages_evolves:
  "fetchMarketData_pages n w appID p s = (r, p', s') \<Longrightarrow> evolves s s'"
proof (induction n arbitrary: p s)
  case 0
  then show ?case by (simp add: evolves_refl)
next
  case (Suc n)
  obtain r1 p1 s1 where it: "fetch_iteration w appID p s = (r1, p1, s1)"
    by (cases "fetch_iteration w appID p s") auto
  have e1: "evolves s s1" by (rule evolves_fetch_iteration [OF it])
  show ?case
  proof (cases "(r1 = Throttled \<or> r1 = PageDone) \<and> fetched p1 < total p1")
    case True
    with it Suc.prems have "fetchMarketData_pages n w appID p1 s1 = (r, p', s')" by auto
    from evolves_trans [OF e1 Suc.IH [OF this]] show ?thesis .
  next
    case False
    with it Suc.prems have "s' = s1" by (cases r1) (auto split: if_splits)
    with e1 show ?thesis by simp
  qed
qed

lemma pages_fetched_mono:
  "fetchMarketData_pages n w appID p s = (r, p', s') \<Longrightarrow> fetched p \<le> fetched p'"
proof (induction n arbitrary: p s)
  case 0
  then show ?case by simp
next
  case (Suc n)
  obtain r1 p1 s1 where it: "fetch_iteration w appID p s = (r1, p1, s1)"
    by (cases "fetch_iteration w appID p s") auto
  have m1: "fetched p \<le> fetched p1" by (rule iteration_fetched_mono [OF it])
  show ?case
  proof (cases "(r1 = Throttled \<or> r1 = PageDone) \<and> fetched p1 < total p1")
    case True
    with it Suc.prems have "fetchMarketData_pages n w appID p1 s1 = (r, p', s')" by auto
    from Suc.IH [OF this] m1 show ?thesis by simp
  next
    case False
    with it Suc.prems have "p' = p1" by (cases r1) (auto split: if_splits)
    with m1 show ?thesis by simp
  qed
qed

lemma pages_Finished:
  "fetchMarketData_pages n w appID p s = (Finished, p', s') \<Longrightarrow> total p' \<le> fetched p'"
proof (induction n arbitrary: p s)
  case 0
  then show ?case by simp
next
  case (Suc n)
  obtain r1 p1 s1 where it: "fetch_iteration w appID p s = (r1, p1, s1)"
    by (cases "fetch_iteration w appID p s") auto
  show ?case
  proof (cases "(r1 = Throttled \<or> r1 = PageDone) \<and> fetched p1 < total p1")
    case True
    with it Suc.prems have "fetchMarketData_pages n w appID p1 s1 = (Finished, p', s')" by auto
    from Suc.IH [OF this] show ?thesis .
  next
    case False
    with it Suc.prems show ?thesis by (cases r1) (auto split: if_splits)
  qed
qed

text \<open>More fuel does not change how a loop that ended has ended.\<close>

lemma pages_more_fuel:
  "fetchMarketData_pages n w appID p s = (r, p', s') \<Longrightarrow> r \<noteq> OutOfFuel \<Longrightarrow>
     fetchMarketData_pages (n + m) w appID p s = (r, p', s')"
proof (induction n arbitrary: p s)
  case 0
  then show ?case by simp
next
  case (Suc n)
  obtain r1 p1 s1 where it: "fetch_iteration w appID p s = (r1, p1, s1)"
    by (cases "fetch_iteration w appID p s") auto
  show ?case
  proof (cases "(r1 = Throttled \<or> r1 = PageDone) \<and> fetched p1 < total p1")
    case True
    with it Suc.prems have "fetchMarketData_pages n w appID p1 s1 = (r, p', s')" by auto
    from Suc.IH [OF this Suc.prems(2)] it True show ?thesis by auto
  next
    case False
    with it Suc.prems show ?thesis by (cases r1) (auto split: if_splits)
  qed
qed

lemma loop_state_continues: "loop_state w appID s0 p s \<Longrightarrow> fetched p < total p"
  by (induction rule: loop_state.induct) (simp_all add: initial_progress_def)

lemma pages_loop_state:
  "loop_state w appID s0 p s \<Longrightarrow> fetchMarketData_pages n w appID p s = (OutOfFuel, p', s') \<Longrightarrow>
     loop_state w appID s0 p' s'"
proof (induction n arbitrary: p s)
  case 0
  then show ?case by simp
next
  case (Suc n)
  obtain r1 p1 s1 where it: "fetch_iteration w appID p s = (r1, p1, s1)"
    by (cases "fetch_iteration w appID p s") auto
  show ?case
  proof (cases "(r1 = Throttled \<or> r1 = PageDone) \<and> fetched p1 < total p1")
    case True
    with it Suc.prems have run: "fetchMarketData_pages n w appID p1 s1 = (OutOfFuel, p', s')" by auto
    from True have "loop_state w appID s0 p1 s1"
      using loop_state.next_pass [OF Suc.prems(1) it] by blast
    from Suc.IH [OF this run] show ?thesis .
  next
    case False
    with it Suc.prems show ?thesis by (cases r1) (auto split: if_splits)
  qed
qed

text \<open>A loop that runs at least one pass starts with the request of its first pass.\<close>

lemma pages_first_request:
  "\<exists>rest. trace (snd (snd (fetchMarketData_pages (Suc n) w appID p s))) =
      trace s @ EvRequest (page_request appID p) (clock s + int (queue_ms w (requests s))) # rest"
proof -
  obtain r1 p1 s1 where it: "fetch_iteration w appID p s = (r1, p1, s1)"
    by (cases "fetch_iteration w appID p s") auto
  from trace_fetch_iteration [OF it] obtain rest1 where
    t1: "trace s1 = trace s @ EvRequest (page_request appID p)
           (clock s + int (queue_ms w (requests s))) # rest1"
    by blast
  show ?thesis
  proof (cases "(r1 = Throttled \<or> r1 = PageDone) \<and> fetched p1 < total p1")
    case True
    obtain r2 p2 s2 where run: "fetchMarketData_pages n w appID p1 s1 = (r2, p2, s2)"
      by (cases "fetchMarketData_pages n w appID p1 s1") auto
    from pages_evolves [OF run] obtain tr where "trace s2 = trace s1 @ tr"
      by (auto simp: evolves_def)
    with t1 it True run show ?thesis
      by auto
  next
    case False
    with it have "snd (snd (fetchMarketData_pages (Suc n) w appID p s)) = s1"
      by (cases r1) (auto split: if_splits)
    with t1 show ?thesis
      by simp
  qed
qed

section \<open>The loop over the apps and the cycle\<close>

lemma apps_throw:
  "fetchMarketData_pages n w appID initial_progress (s\<lparr>trace := trace s @ [EvFetching appID]\<rparr>)
      = (Threw e, p', s') \<Longrightarrow>
   fetchMarketData_apps n w (appID # others) s = (Threw e, s')"
  by simp

lemma apps_evolves:
  "fetchMarketData_apps n w apps s = (r, s') \<Longrightarrow> evolves s s'"
proof (induction apps arbitrary: s)
  case Nil
  then show ?case by (simp add: evolves_refl)
next
  case (Cons appID apps)
  let ?s = "s\<lparr>trace := trace s @ [EvFetching appID]\<rparr>"
  obtain r1 p1 s1 where run: "fetchMarketData_pages n w appID initial_progress ?s = (r1, p1, s1)"
    by (cases "fetchMarketData_pages n w appID initial_progress ?s") auto
  have e1: "evolves s s1"
    by (rule evolves_trans [OF evolves_trace pages_evolves [OF run]])
  show ?case
  proof (cases r1)
    case Finished
    with run Cons.prems
    have "fetchMarketData_apps n w apps (s1\<lparr>trace := trace s1 @ [EvFetchedAll appID]\<rparr>) = (r, s')"
      by simp
    from evolves_trans [OF evolves_trans [OF e1 evolves_trace] Cons.IH [OF this]]
    show ?thesis .
  next
    case (Threw e)
    with run Cons.prems e1 show ?thesis by simp
  next
    case OutOfFuel
    with run Cons.prems e1 show ?thesis by simp
  qed
qed


lemma cycle_threw:
  assumes "fetchMarketData n w (s\<lparr>trace := trace s @ [EvCycleStart]\<rparr>) = (Threw e, sf)"
  shows "updateMarketListingsData n w s =
           (Threw e, sf\<lparr>trace := trace sf @ [EvCycleError e, EvTimer (updateInterval s)]\<rparr>)
         \<and> lastUpdate sf = lastUpdate s \<and> lastUpdateFile sf = lastUpdateFile s
         \<and> persists (collection s) (collection sf)"
proof -
  from assms have "evolves (s\<lparr>trace := trace s @ [EvCycleStart]\<rparr>) sf"
    unfolding fetchMarketData_def by (rule apps_evolves)
  then have "updateInterval sf = updateInterval s" "lastUpdate sf = lastUpdate s"
    "lastUpdateFile sf = lastUpdateFile s" "persists (collection s) (collection sf)"
    by (simp_all add: evolves_def)
  with assms show ?thesis
    by (simp add: updateMarketListingsData_def setTimeout_def)
qed



section \<open>Claims about the loop over the pages\<close>

lemmas world_defs = steady_world_def ok_page_def http_status_def

text \<open>
  C1. In a pass through the body of the loop that does not throw, \<open>fetched\<close> never
  decreases: a throttled pass (status 429) leaves the loop variables as they were, and a
  pass that fetched a page adds exactly the number of items of that page to \<open>fetched\<close>,
  a strict increase (a page without items does not get past pushToDB), and leaves
  \<open>total\<close> equal to the \<open>total_count\<close> of that page (the guarded assignment is an
  overwrite). After such a pass the loop ends exactly when \<open>total \<le> fetched\<close>, with
  the values just set. Over a whole run \<open>fetched\<close> has not decreased, and a loop that
  ended without throwing ended with \<open>total \<le> fetched\<close>.
\<close>

theorem fetched_count_progress:
  assumes "fetch_iteration w appID p s = (r, p', s')"
  shows "(r = Throttled \<longrightarrow> p' = p)
    \<and> (r = PageDone \<longrightarrow>
         (\<exists>resp pg. reply w (requests s) (page_request appID p) = Resolved resp
            \<and> body resp = BodyPage pg
            \<and> fetched p' = fetched p + int (length (results pg))
            \<and> fetched p < fetched p'
            \<and> total p' = total_count pg))
    \<and> fetched p \<le> fetched p'
    \<and> (r = Throttled \<or> r = PageDone \<longrightarrow>
         fetchMarketData_pages (Suc n) w appID p s =
           (if total p' \<le> fetched p' then (Finished, p', s')
            else fetchMarketData_pages n w appID p' s'))
    \<and> (\<forall>m r2 p2 s2. fetchMarketData_pages m w appID p s = (r2, p2, s2) \<longrightarrow>
           fetched p \<le> fetched p2 \<and> (r2 = Finished \<longrightarrow> total p2 \<le> fetched p2))"
proof (intro conjI impI allI)
  assume "r = Throttled"
  with assms show "p' = p" by (simp add: iteration_Throttled_D)
next
  assume "r = PageDone"
  with assms have page: "fetch_iteration w appID p s = (PageDone, p', s')" by simp
  from iteration_PageDone_D [OF page] obtain resp pg where
    "reply w (requests s) (page_request appID p) = Resolved resp" "body resp = BodyPage pg"
    "p' = \<lparr>pageIndex = Suc (pageIndex p), total = total_count pg,
            fetched = fetched p + int (length (results pg))\<rparr>"
    by blast
  with iteration_PageDone_strict [OF page]
  show "\<exists>resp pg. reply w (requests s) (page_request appID p) = Resolved resp
            \<and> body resp = BodyPage pg
            \<and> fetched p' = fetched p + int (length (results pg))
            \<and> fetched p < fetched p'
            \<and> total p' = total_count pg"
    by auto
next
  show "fetched p \<le> fetched p'" by (rule iteration_fetched_mono [OF assms])
next
  assume "r = Throttled \<or> r = PageDone"
  from pages_exit [OF assms this]
  show "fetchMarketData_pages (Suc n) w appID p s =
           (if total p' \<le> fetched p' then (Finished, p', s')
            else fetchMarketData_pages n w appID p' s')" .
next
  fix m r2 p2 s2
  assume "fetchMarketData_pages m w appID p s = (r2, p2, s2)"
  then show "fetched p \<le> fetched p2" by (rule pages_fetched_mono)
next
  fix m r2 p2 s2
  assume "fetchMarketData_pages m w appID p s = (r2, p2, s2)" and "r2 = Finished"
  then show "total p2 \<le> fetched p2" by (simp add: pages_Finished)
qed

text \<open>Two first passes: a page of one item, and a 429.\<close>

lemma calm_first_page:
  "fetch_iteration calm_world 730 initial_progress fresh_observer =
     (PageDone, \<lparr>pageIndex = 2, total = 1, fetched = 1\<rparr>,
      snd (snd (fetch_iteration calm_world 730 initial_progress fresh_observer)))"
  by (simp add: fetch_iteration_def calm_world_def world_defs initial_progress_def
      fresh_observer_def pushToDB_def page_request_def Let_def item_op_def ak_item_def
      ITEM_PROPERTIES_def prop_value_def)

lemma busy_first_reply:
  "fetch_iteration busy_world 730 initial_progress fresh_observer =
     (Throttled, initial_progress,
      snd (snd (fetch_iteration busy_world 730 initial_progress fresh_observer)))"
  by (simp add: fetch_iteration_def busy_world_def world_defs initial_progress_def
      fresh_observer_def page_request_def Let_def)

theorem fetched_count_progress_witness:
  "fst (fetch_iteration calm_world 730 initial_progress fresh_observer) = PageDone
   \<and> fetched initial_progress
       < fetched (fst (snd (fetch_iteration calm_world 730 initial_progress fresh_observer)))
   \<and> fst (fetchMarketData_pages (Suc 0) calm_world 730 initial_progress fresh_observer) = Finished
   \<and> fst (fetch_iteration busy_world 730 initial_progress fresh_observer) = Throttled
   \<and> fst (snd (fetch_iteration busy_world 730 initial_progress fresh_observer)) = initial_progress"
proof -
  let ?page = "fetch_iteration calm_world 730 initial_progress fresh_observer"
  let ?busy = "fetch_iteration busy_world 730 initial_progress fresh_observer"
  note page = fetched_count_progress [OF calm_first_page, of 0]
  have "?busy = (fst ?busy, fst (snd ?busy), snd (snd ?busy))"
    by simp
  note busy = fetched_count_progress [OF this, of 0]
  have p1: "fst ?page = PageDone" and p2: "fst (snd ?page) = \<lparr>pageIndex = 2, total = 1, fetched = 1\<rparr>"
    by (subst calm_first_page, simp)+
  have b1: "fst ?busy = Throttled"
    by (subst busy_first_reply) simp
  have b2: "fst (snd ?busy) = initial_progress"
    using busy b1 by blast
  from page obtain resp pg where
    r: "reply calm_world (requests fresh_observer) (page_request 730 initial_progress) = Resolved resp"
    and pg: "body resp = BodyPage pg"
    and lt: "fetched initial_progress < fetched \<lparr>pageIndex = 2, total = 1, fetched = 1\<rparr>"
    by auto
  from lt p2 have p3: "fetched initial_progress < fetched (fst (snd ?page))" by simp
  from page have "fetchMarketData_pages (Suc 0) calm_world 730 initial_progress fresh_observer
      = (Finished, \<lparr>pageIndex = 2, total = 1, fetched = 1\<rparr>, snd (snd ?page))"
    by simp
  then have p4: "fst (fetchMarketData_pages (Suc 0) calm_world 730 initial_progress fresh_observer) = Finished"
    by simp
  from p1 p3 p4 b1 b2 show ?thesis by blast
qed

text \<open>
  A server that always reports 250 items and serves them in pages of at most 100, whose
  items pushToDB accepts, and a store that takes every batch: three passes end the loop.
\<close>

lemma pages_of_250:
  assumes served: "\<And>k req. \<exists>items ops.
        reply w k req = Resolved \<lparr>status = 200,
            body = BodyPage \<lparr>success = True, total_count = 250, results = items\<rparr>\<rparr>
        \<and> length items = nat (min 100 (250 - q_start req))
        \<and> build_bulk (properties s) items = Inr ops"
    and written: "\<And>k. exec w k = ExecOk"
  shows "\<exists>s'. fetchMarketData_pages (Suc (Suc (Suc n))) w appID initial_progress s =
            (Finished, \<lparr>pageIndex = 4, total = 250, fetched = 250\<rparr>, s')
          \<and> requests s' = requests s + 3
          \<and> offsets (trace s') = offsets (trace s) @ [0, 100, 200]
          \<and> fetched_counts (trace s') = fetched_counts (trace s) @ [100, 200, 250]"
proof -
  let ?p0 = initial_progress
  let ?p1 = "\<lparr>pageIndex = 2, total = 250, fetched = 100\<rparr> :: progress"
  let ?p2 = "\<lparr>pageIndex = 3, total = 250, fetched = 200\<rparr> :: progress"
  let ?p3 = "\<lparr>pageIndex = 4, total = 250, fetched = 250\<rparr> :: progress"
  have step: "\<exists>s'. fetch_iteration w appID p t =
            (PageDone, \<lparr>pageIndex = Suc (pageIndex p), total = 250,
                        fetched = fetched p + min 100 (250 - fetched p)\<rparr>, s')
          \<and> requests s' = Suc (requests t) \<and> properties s' = properties s
          \<and> offsets (trace s') = offsets (trace t) @ [fetched p]
          \<and> fetched_counts (trace s') = fetched_counts (trace t)
               @ [fetched p + min 100 (250 - fetched p)]"
    if props: "properties t = properties s" and le: "fetched p < 250" for p t
  proof -
    from served [of "requests t" "page_request appID p"] obtain items ops where
      r: "reply w (requests t) (page_request appID p) = Resolved \<lparr>status = 200,
            body = BodyPage \<lparr>success = True, total_count = 250, results = items\<rparr>\<rparr>"
      and len: "length items = nat (min 100 (250 - q_start (page_request appID p)))"
      and ops: "build_bulk (properties s) items = Inr ops"
      by blast
    from len le have len': "int (length items) = min 100 (250 - fetched p)"
      and some: "items \<noteq> []"
      by (auto simp: page_request_def)
    from iteration_page [OF r, of "\<lparr>success = True, total_count = 250, results = items\<rparr>" ops]
      ops props written len' some
    show ?thesis
      by (auto simp: offsets_append fetched_counts_append offsets_page fetched_counts_page
          page_request_def)
  qed
  from step [of s ?p0] obtain s1 where
    i1: "fetch_iteration w appID ?p0 s = (PageDone, ?p1, s1)"
    and s1: "requests s1 = Suc (requests s)" "properties s1 = properties s"
      "offsets (trace s1) = offsets (trace s) @ [0]"
      "fetched_counts (trace s1) = fetched_counts (trace s) @ [100]"
    by (auto simp: initial_progress_def)
  from step [of s1 ?p1] s1 obtain s2 where
    i2: "fetch_iteration w appID ?p1 s1 = (PageDone, ?p2, s2)"
    and s2: "requests s2 = Suc (Suc (requests s))" "properties s2 = properties s"
      "offsets (trace s2) = offsets (trace s) @ [0, 100]"
      "fetched_counts (trace s2) = fetched_counts (trace s) @ [100, 200]"
    by auto
  from step [of s2 ?p2] s2 obtain s3 where
    i3: "fetch_iteration w appID ?p2 s2 = (PageDone, ?p3, s3)"
    and s3: "requests s3 = Suc (Suc (Suc (requests s)))"
      "offsets (trace s3) = offsets (trace s) @ [0, 100, 200]"
      "fetched_counts (trace s3) = fetched_counts (trace s) @ [100, 200, 250]"
    by auto
  have "fetchMarketData_pages (Suc (Suc (Suc n))) w appID ?p0 s =
          fetchMarketData_pages (Suc (Suc n)) w appID ?p1 s1"
    using pages_Suc [OF i1] by simp
  also have "\<dots> = fetchMarketData_pages (Suc n) w appID ?p2 s2"
    using pages_Suc [OF i2] by simp
  also have "\<dots> = (Finished, ?p3, s3)"
    using pages_Suc [OF i3] by simp
  finally show ?thesis using s3 by simp
qed

lemma offsets_Fetching: "offsets (tr @ [EvFetching a]) = offsets tr"
  and offsets_FetchedAll: "offsets (tr @ [EvFetchedAll a]) = offsets tr"
  and fetched_counts_Fetching: "fetched_counts (tr @ [EvFetching a]) = fetched_counts tr"
  and fetched_counts_FetchedAll: "fetched_counts (tr @ [EvFetchedAll a]) = fetched_counts tr"
  unfolding offsets_append fetched_counts_append
  by (simp_all add: offsets_def fetched_counts_def request_offset_def fetched_count_def)

text \<open>
  C2. For one app, if every reply is a 200 with a successful page that reports
  \<open>total_count = 250\<close> and holds \<open>min 100 (250 - start)\<close> items (items whose fields
  pushToDB can read, written by a store that accepts every batch), then the loop over the
  pages, and so fetchMarketData, issues exactly three requests, at the offsets 0, 100 and
  200, logs the fetched counts 100, 200 and 250, and ends after the third page, whatever the
  bound on the number of passes beyond three.
\<close>

theorem three_pages_of_250:
  assumes served: "\<And>k req. \<exists>items ops.
        reply w k req = Resolved \<lparr>status = 200,
            body = BodyPage \<lparr>success = True, total_count = 250, results = items\<rparr>\<rparr>
        \<and> length items = nat (min 100 (250 - q_start req))
        \<and> build_bulk (properties s) items = Inr ops"
    and written: "\<And>k. exec w k = ExecOk"
    and one: "appIDs s = [appID]"
  shows "(\<exists>s'. fetchMarketData_pages (Suc (Suc (Suc n))) w appID initial_progress s =
            (Finished, \<lparr>pageIndex = 4, total = 250, fetched = 250\<rparr>, s')
          \<and> requests s' = requests s + 3
          \<and> offsets (trace s') = offsets (trace s) @ [0, 100, 200]
          \<and> fetched_counts (trace s') = fetched_counts (trace s) @ [100, 200, 250])
    \<and> (\<exists>s'. fetchMarketData (Suc (Suc (Suc n))) w s = (Finished, s')
          \<and> requests s' = requests s + 3
          \<and> offsets (trace s') = offsets (trace s) @ [0, 100, 200]
          \<and> fetched_counts (trace s') = fetched_counts (trace s) @ [100, 200, 250])"
proof
  show "\<exists>s'. fetchMarketData_pages (Suc (Suc (Suc n))) w appID initial_progress s =
            (Finished, \<lparr>pageIndex = 4, total = 250, fetched = 250\<rparr>, s')
          \<and> requests s' = requests s + 3
          \<and> offsets (trace s') = offsets (trace s) @ [0, 100, 200]
          \<and> fetched_counts (trace s') = fetched_counts (trace s) @ [100, 200, 250]"
    by (rule pages_of_250 [OF served written])
next
  let ?s = "s\<lparr>trace := trace s @ [EvFetching appID]\<rparr>"
  have "\<exists>items ops.
        reply w k req = Resolved \<lparr>status = 200,
            body = BodyPage \<lparr>success = True, total_count = 250, results = items\<rparr>\<rparr>
        \<and> length items = nat (min 100 (250 - q_start req))
        \<and> build_bulk (properties ?s) items = Inr ops" for k req
    using served [of k req] by simp
  from pages_of_250 [OF this written, of n appID] obtain s' where
    run: "fetchMarketData_pages (Suc (Suc (Suc n))) w appID initial_progress ?s =
            (Finished, \<lparr>pageIndex = 4, total = 250, fetched = 250\<rparr>, s')"
    and s': "requests s' = requests s + 3"
      "offsets (trace s') = offsets (trace s) @ [0, 100, 200]"
      "fetched_counts (trace s') = fetched_counts (trace s) @ [100, 200, 250]"
    by (auto simp: offsets_Fetching fetched_counts_Fetching)
  have "fetchMarketData (Suc (Suc (Suc n))) w s
          = (Finished, s'\<lparr>trace := trace s' @ [EvFetchedAll appID]\<rparr>)"
    unfolding fetchMarketData_def one fetchMarketData_apps.simps run by simp
  with s' show "\<exists>s'. fetchMarketData (Suc (Suc (Suc n))) w s = (Finished, s')
          \<and> requests s' = requests s + 3
          \<and> offsets (trace s') = offsets (trace s) @ [0, 100, 200]
          \<and> fetched_counts (trace s') = fetched_counts (trace s) @ [100, 200, 250]"
    by (simp add: offsets_FetchedAll fetched_counts_FetchedAll)
qed

theorem three_pages_of_250_witness:
  "\<exists>s'. fetchMarketData 3 catalogue_world (fresh_observer\<lparr>appIDs := [730]\<rparr>) = (Finished, s')
          \<and> requests s' = 3
          \<and> offsets (trace s') = [0, 100, 200]
          \<and> fetched_counts (trace s') = [100, 200, 250]"
proof -
  let ?s = "fresh_observer\<lparr>appIDs := [730]\<rparr>"
  have props: "properties ?s = [''name'', ''classid'']"
    by (simp add: fresh_observer_def)
  have served: "\<exists>items ops.
        reply catalogue_world k req = Resolved \<lparr>status = 200,
            body = BodyPage \<lparr>success = True, total_count = 250, results = items\<rparr>\<rparr>
        \<and> length items = nat (min 100 (250 - q_start req))
        \<and> build_bulk (properties ?s) items = Inr ops" for k req
    unfolding props
    by (simp add: catalogue_world_def steady_world_def ok_page_def
        build_bulk_replicate [OF item_op_ak_item])
  have written: "exec catalogue_world k = ExecOk" for k
    by (simp add: catalogue_world_def steady_world_def)
  have one: "appIDs ?s = [730]"
    by simp
  from three_pages_of_250 [of catalogue_world ?s 730 0, OF served written one]
  show ?thesis
    by (simp add: numeral_3_eq_3 fresh_observer_def offsets_def fetched_counts_def)
qed

text \<open>
  C3. In every state in which the loop starts a pass, a reply with status 429 makes the
  pass end at \<^verbatim>\<open>continue\<close>: \<open>fetched\<close>, \<open>pageIndex\<close> and \<open>total\<close> are as before,
  nothing is written to the store, the observer logs the warning and waits for the cool-down
  of 30000 ms after the reply (the clock has advanced by at least that much since the reply
  arrived), and the loop goes on instead of throwing: its run through this pass and the
  next holds the request, the warning, the wait and then the same request again (same app,
  same offset, same count), issued no earlier than 30000 ms after the reply.
\<close>

theorem throttled_pass_retries:
  assumes head: "loop_state w appID s0 p s"
    and answer: "reply w (requests s) (page_request appID p) = Resolved resp"
    and throttled: "status resp = 429"
  shows "\<exists>s' t0. fetch_iteration w appID p s = (Throttled, p, s')
      \<and> collection s' = collection s
      \<and> trace s' = trace s @
           [EvRequest (page_request appID p) t0, EvThrottled, EvCooldown REQUEST_COOL_DOWN]
      \<and> REQUEST_COOL_DOWN = 30000
      \<and> t0 = clock s + int (queue_ms w (requests s))
      \<and> t0 + int (net_ms w (requests s)) + REQUEST_COOL_DOWN \<le> clock s'
      \<and> loop_state w appID s0 p s'
      \<and> fetchMarketData_pages (Suc n) w appID p s = fetchMarketData_pages n w appID p s'
      \<and> (\<exists>t1 rest. trace (snd (snd (fetch_iteration w appID p s'))) =
             trace s' @ EvRequest (page_request appID p) t1 # rest
           \<and> clock s' \<le> t1)
      \<and> (\<exists>t1 rest. trace (snd (snd (fetchMarketData_pages (Suc (Suc n)) w appID p s))) =
             trace s @ [EvRequest (page_request appID p) t0, EvThrottled,
                        EvCooldown REQUEST_COOL_DOWN]
               @ EvRequest (page_request appID p) t1 # rest
           \<and> t0 + int (net_ms w (requests s)) + REQUEST_COOL_DOWN \<le> t1)"
proof -
  let ?k = "requests s"
  let ?t0 = "clock s + int (queue_ms w ?k)"
  let ?s' = "s\<lparr>requests := Suc ?k,
        clock := ?t0 + int (net_ms w ?k) + REQUEST_COOL_DOWN + int (late_ms w ?k),
        trace := trace s @ [EvRequest (page_request appID p) ?t0,
                            EvThrottled, EvCooldown REQUEST_COOL_DOWN]\<rparr>"
  have it: "fetch_iteration w appID p s = (Throttled, p, ?s')"
    by (rule iteration_throttled [OF answer throttled])
  have more: "fetched p < total p"
    by (rule loop_state_continues [OF head])
  have again: "loop_state w appID s0 p ?s'"
    using loop_state.next_pass [OF head it] more by simp
  have run: "fetchMarketData_pages (Suc n) w appID p s = fetchMarketData_pages n w appID p ?s'"
    using pages_Suc [OF it] more by simp
  obtain r2 p2 s2 where next_it: "fetch_iteration w appID p ?s' = (r2, p2, s2)"
    by (cases "fetch_iteration w appID p ?s'") auto
  from trace_fetch_iteration [OF next_it] obtain rest where
    "trace s2 = trace ?s' @ EvRequest (page_request appID p)
        (clock ?s' + int (queue_ms w (requests ?s'))) # rest"
    by blast
  with next_it have retry: "\<exists>t1 rest. trace (snd (snd (fetch_iteration w appID p ?s'))) =
             trace ?s' @ EvRequest (page_request appID p) t1 # rest
           \<and> clock ?s' \<le> t1"
    by (intro exI [of _ "clock ?s' + int (queue_ms w (requests ?s'))"] exI [of _ rest]) simp
  have run2: "fetchMarketData_pages (Suc (Suc n)) w appID p s
      = fetchMarketData_pages (Suc n) w appID p ?s'"
    using pages_Suc [OF it] more by simp
  from pages_first_request [of n w appID p ?s'] obtain rest2 where
    "trace (snd (snd (fetchMarketData_pages (Suc n) w appID p ?s'))) =
       trace ?s' @ EvRequest (page_request appID p)
         (clock ?s' + int (queue_ms w (requests ?s'))) # rest2"
    by blast
  then have again2: "\<exists>t1 rest. trace (snd (snd (fetchMarketData_pages (Suc (Suc n)) w appID p s))) =
             trace s @ [EvRequest (page_request appID p) ?t0, EvThrottled,
                        EvCooldown REQUEST_COOL_DOWN]
               @ EvRequest (page_request appID p) t1 # rest
           \<and> ?t0 + int (net_ms w ?k) + REQUEST_COOL_DOWN \<le> t1"
    unfolding run2
    by (intro exI [of _ "clock ?s' + int (queue_ms w (requests ?s'))"] exI [of _ rest2]) simp
  have "collection ?s' = collection s"
    "?t0 + int (net_ms w ?k) + REQUEST_COOL_DOWN \<le> clock ?s'"
    "trace ?s' = trace s @
       [EvRequest (page_request appID p) ?t0, EvThrottled, EvCooldown REQUEST_COOL_DOWN]"
    "REQUEST_COOL_DOWN = 30000"
    by (simp_all add: REQUEST_COOL_DOWN_def)
  with it again run retry again2 show ?thesis
    by blast
qed

theorem throttled_pass_retries_witness:
  "\<exists>s' t0. fetch_iteration busy_world 730 initial_progress fresh_observer
        = (Throttled, initial_progress, s')
      \<and> collection s' = collection fresh_observer
      \<and> t0 = 1700000010000 \<and> t0 + 250 + 30000 \<le> clock s'
      \<and> (\<exists>t1 rest. trace (snd (snd (fetchMarketData_pages (Suc (Suc 0)) busy_world 730
                                        initial_progress fresh_observer))) =
             [EvRequest \<lparr>q_appid = 730, q_start = 0, q_count = 100\<rparr> t0, EvThrottled,
              EvCooldown 30000, EvRequest \<lparr>q_appid = 730, q_start = 0, q_count = 100\<rparr> t1]
               @ rest
           \<and> t0 + 250 + 30000 \<le> t1)"
proof -
  have head: "loop_state busy_world 730 fresh_observer initial_progress fresh_observer"
    by (rule loop_state.first_pass)
  have answer: "reply busy_world (requests fresh_observer) (page_request 730 initial_progress)
      = Resolved \<lparr>status = 429, body = BodyEmpty\<rparr>"
    by (simp add: busy_world_def steady_world_def http_status_def fresh_observer_def)
  have throttled: "status \<lparr>status = 429, body = BodyEmpty\<rparr> = 429"
    by simp
  have req: "page_request 730 initial_progress = \<lparr>q_appid = 730, q_start = 0, q_count = 100\<rparr>"
    by (simp add: page_request_def initial_progress_def PAGE_SIZE_def)
  have env: "trace fresh_observer = []" "clock fresh_observer = 1700000000000"
    "requests fresh_observer = 0" "queue_ms busy_world 0 = 10000" "net_ms busy_world 0 = 250"
    by (simp_all add: fresh_observer_def busy_world_def steady_world_def)
  from throttled_pass_retries [OF head answer throttled, of 0]
  show ?thesis
    unfolding req env by (auto simp: REQUEST_COOL_DOWN_def)
qed

text \<open>
  C4 (amended). A successful page without items does not keep the loop running, whatever
  \<open>total_count\<close> it reports and however far \<open>fetched\<close> is below it: pushToDB executes
  a batch without operations, which is rejected, so the pass throws. The loop of that app
  ends right there, after that one request and whatever the bound on its passes, with
  \<open>fetched\<close> and the store as they were; when it is the first page of the first app,
  the cycle ends in its \<^verbatim>\<open>catch\<close> with the watermark and its file unchanged.
\<close>

theorem empty_page_ends_loop:
  assumes answer: "reply w (requests s) (page_request appID p) = Resolved resp"
    and ok: "status resp = 200" and page: "body resp = BodyPage pg" and good: "success pg"
    and hollow: "results pg = []"
  shows "(\<exists>p' s'. fetchMarketData_pages (Suc n) w appID p s = (Threw PersistenceError, p', s')
      \<and> fetched p' = fetched p \<and> total p' = total_count pg
      \<and> collection s' = collection s \<and> requests s' = Suc (requests s))
    \<and> (p = initial_progress \<and> appIDs s = appID # others \<longrightarrow>
         (\<exists>s'. updateMarketListingsData (Suc n) w s = (Threw PersistenceError, s')
            \<and> collection s' = collection s \<and> requests s' = Suc (requests s)
            \<and> lastUpdate s' = lastUpdate s \<and> lastUpdateFile s' = lastUpdateFile s))"
proof (intro conjI impI)
  from iteration_empty_page [OF answer ok page good hollow] obtain s' where
    "fetch_iteration w appID p s =
       (Fatal PersistenceError,
        \<lparr>pageIndex = pageIndex p, total = total_count pg, fetched = fetched p\<rparr>, s')"
    "collection s' = collection s" "requests s' = Suc (requests s)"
    by blast
  then show "\<exists>p' s'. fetchMarketData_pages (Suc n) w appID p s = (Threw PersistenceError, p', s')
      \<and> fetched p' = fetched p \<and> total p' = total_count pg
      \<and> collection s' = collection s \<and> requests s' = Suc (requests s)"
    by (simp add: pages_throw)
next
  assume first: "p = initial_progress \<and> appIDs s = appID # others"
  let ?s = "s\<lparr>trace := trace s @ [EvCycleStart]\<rparr>"
  let ?t = "?s\<lparr>trace := trace ?s @ [EvFetching appID]\<rparr>"
  have "reply w (requests ?t) (page_request appID initial_progress) = Resolved resp"
    using answer first by simp
  from iteration_empty_page [OF this ok page good hollow] obtain p' s' where
    it: "fetch_iteration w appID initial_progress ?t = (Fatal PersistenceError, p', s')"
    and same: "collection s' = collection s" "requests s' = Suc (requests s)"
    by auto
  from pages_throw [OF it]
  have "fetchMarketData_pages (Suc n) w appID initial_progress ?t = (Threw PersistenceError, p', s')" .
  from apps_throw [OF this] first
  have "fetchMarketData (Suc n) w ?s = (Threw PersistenceError, s')"
    by (simp add: fetchMarketData_def)
  from cycle_threw [OF this] same
  show "\<exists>s'. updateMarketListingsData (Suc n) w s = (Threw PersistenceError, s')
            \<and> collection s' = collection s \<and> requests s' = Suc (requests s)
            \<and> lastUpdate s' = lastUpdate s \<and> lastUpdateFile s' = lastUpdateFile s"
    by simp
qed

theorem empty_page_ends_loop_witness:
  "(\<exists>p' s'. fetchMarketData_pages (Suc 999) hollow_world 730 initial_progress fresh_observer
        = (Threw PersistenceError, p', s')
      \<and> fetched p' = 0 \<and> total p' = 5 \<and> requests s' = 1)
   \<and> (\<exists>s'. updateMarketListingsData (Suc 999) hollow_world fresh_observer
        = (Threw PersistenceError, s')
      \<and> requests s' = 1 \<and> lastUpdate s' = 0 \<and> lastUpdateFile s' = None)"
proof -
  let ?pg = "\<lparr>success = True, total_count = 5, results = []\<rparr>"
  let ?resp = "\<lparr>status = 200, body = BodyPage ?pg\<rparr>"
  have answer: "reply hollow_world (requests fresh_observer) (page_request 730 initial_progress)
      = Resolved ?resp"
    by (simp add: hollow_world_def steady_world_def ok_page_def)
  have first: "initial_progress = initial_progress \<and> appIDs fresh_observer = 730 # [570]"
    by (simp add: fresh_observer_def)
  from empty_page_ends_loop [OF answer, of ?pg 999 "[570]"] first
  show ?thesis
    by (auto simp: initial_progress_def fresh_observer_def)
qed

text \<open>
  C4 as stated fails at its own scenario: every page of this server is successful, holds
  no item and announces 5 items while \<open>fetched\<close> is 0, and the loop ends with the first
  of them, with a thrown error, instead of running on.
\<close>

theorem empty_pages_do_not_spin:
  "reply hollow_world 0 (page_request 730 initial_progress)
     = Resolved \<lparr>status = 200,
         body = BodyPage \<lparr>success = True, total_count = 5, results = []\<rparr>\<rparr>
   \<and> fetched initial_progress < 5
   \<and> fst (fetchMarketData_pages (Suc 0) hollow_world 730 initial_progress fresh_observer)
       = Threw PersistenceError
   \<and> fst (fetchMarketData_pages (Suc 999) hollow_world 730 initial_progress fresh_observer)
       = Threw PersistenceError"
proof -
  have served: "reply hollow_world 0 (page_request 730 initial_progress)
     = Resolved \<lparr>status = 200,
         body = BodyPage \<lparr>success = True, total_count = 5, results = []\<rparr>\<rparr>"
    and gap: "fetched initial_progress < 5"
    by (simp_all add: hollow_world_def steady_world_def ok_page_def initial_progress_def)
  have "fst (fetch_iteration hollow_world 730 initial_progress fresh_observer)
      = Fatal PersistenceError"
    by (simp add: fetch_iteration_def hollow_world_def steady_world_def ok_page_def
        initial_progress_def fresh_observer_def pushToDB_def page_request_def Let_def)
  then have thrown: "fst (fetchMarketData_pages (Suc n) hollow_world 730 initial_progress
      fresh_observer) = Threw PersistenceError" for n
    by (cases "fetch_iteration hollow_world 730 initial_progress fresh_observer") simp
  from served gap thrown [of 0] thrown [of 999] show ?thesis
    by (intro conjI)
qed

section \<open>Claims about pushToDB\<close>

lemma pushToDB_single:
  "item_op wl item = Inr op \<Longrightarrow> pushToDB ExecOk wl [item] c = (Inr (), apply_upsert c op)"
  by (simp add: pushToDB_def)

text \<open>
  C5. For every item that pushToDB turns into an upsert and every field of the configured
  list that is one of the item properties, the value set and stored for that field is the
  item's own value when that is not \<^verbatim>\<open>undefined\<close>, and otherwise the value of that field
  in the item's \<^verbatim>\<open>asset_description\<close>. In particular an item without a name of its own
  whose description has the name \<open>AK-47\<close> is stored with the name \<open>AK-47\<close>.
\<close>

theorem whitelisted_field_value:
  assumes built: "item_op wl item = Inr op"
    and listed: "f \<in> set wl" and known: "f \<in> set ITEM_PROPERTIES"
  shows "\<exists>top v. js_get item f = Inr top
      \<and> toSet op f = Some v
      \<and> field_at (snd (pushToDB ExecOk wl [item] c)) (hash_name op) f = Some v
      \<and> (top \<noteq> JUndefined \<longrightarrow> v = top)
      \<and> (top = JUndefined \<longrightarrow>
           (\<exists>d. js_get item ''asset_description'' = Inr d \<and> js_get d f = Inr v))
      \<and> (f = ''name'' \<and> top = JUndefined
           \<and> js_get item ''asset_description'' = Inr (JObj [(''name'', JStr ''AK-47'')])
           \<longrightarrow> v = JStr ''AK-47'')"
proof -
  from item_op_property [OF built listed known] obtain v where
    pv: "prop_value item f = Inr v" and ts: "toSet op f = Some v"
    by blast
  from pv obtain top where top: "js_get item f = Inr top"
    by (auto simp: prop_value_def split: sum.splits)
  have stored: "field_at (snd (pushToDB ExecOk wl [item] c)) (hash_name op) f = Some v"
    by (simp add: pushToDB_single [OF built] field_at_upserted [OF ts])
  have own: "top \<noteq> JUndefined \<longrightarrow> v = top"
    using pv top by (auto simp: prop_value_def)
  have nested: "top = JUndefined \<longrightarrow>
      (\<exists>d. js_get item ''asset_description'' = Inr d \<and> js_get d f = Inr v)"
    using pv top by (auto simp: prop_value_def split: sum.splits)
  have ak: "f = ''name'' \<and> top = JUndefined
      \<and> js_get item ''asset_description'' = Inr (JObj [(''name'', JStr ''AK-47'')])
      \<longrightarrow> v = JStr ''AK-47''"
    using nested by auto
  from top ts stored own nested ak show ?thesis
    by blast
qed

lemma item_op_nameless_ak:
  "item_op [''name''] nameless_ak =
     Inr \<lparr>hash_name = JStr ''AK-47 | Redline'',
          toSet = [''sell_price'' \<mapsto> JNum 1250, ''name'' \<mapsto> JStr ''AK-47'']\<rparr>"
  by (simp add: item_op_def nameless_ak_def ITEM_PROPERTIES_def prop_value_def)

theorem whitelisted_field_value_witness:
  "js_get nameless_ak ''name'' = Inr JUndefined
   \<and> field_at (snd (pushToDB ExecOk [''name''] [nameless_ak] Map.empty))
        (JStr ''AK-47 | Redline'') ''name'' = Some (JStr ''AK-47'')
   \<and> js_get ak_item ''classid'' = Inr (JStr ''310777'')
   \<and> field_at (snd (pushToDB ExecOk [''name'', ''classid''] [ak_item] Map.empty))
        (JStr ''AK-47 | Redline'') ''classid'' = Some (JStr ''310777'')"
proof -
  have listed: "''name'' \<in> set [''name'']" and known: "''name'' \<in> set ITEM_PROPERTIES"
    by (simp_all add: ITEM_PROPERTIES_def)
  have top: "js_get nameless_ak ''name'' = Inr JUndefined"
    and desc: "js_get nameless_ak ''asset_description'' = Inr (JObj [(''name'', JStr ''AK-47'')])"
    by (simp_all add: nameless_ak_def)
  from whitelisted_field_value [OF item_op_nameless_ak listed known, of Map.empty] top desc
  have 1: "field_at (snd (pushToDB ExecOk [''name''] [nameless_ak] Map.empty))
        (JStr ''AK-47 | Redline'') ''name'' = Some (JStr ''AK-47'')"
    by auto
  have listed': "''classid'' \<in> set [''name'', ''classid'']"
    and known': "''classid'' \<in> set ITEM_PROPERTIES"
    by (simp_all add: ITEM_PROPERTIES_def)
  have top': "js_get ak_item ''classid'' = Inr (JStr ''310777'')"
    by (simp add: ak_item_def)
  from whitelisted_field_value [OF item_op_ak_item listed' known', of Map.empty] top'
  have 2: "field_at (snd (pushToDB ExecOk [''name'', ''classid''] [ak_item] Map.empty))
        (JStr ''AK-47 | Redline'') ''classid'' = Some (JStr ''310777'')"
    by auto
  from top 1 top' 2 show ?thesis
    by blast
qed

text \<open>What a batch leaves in the document of a key: the fields of the last upsert of that key.\<close>

lemma apply_upsert_other: "k \<noteq> hash_name op \<Longrightarrow> apply_upsert c op k = c k"
  by (simp add: apply_upsert_def)

lemma foldl_upsert_other:
  "k \<notin> hash_name ` set ops \<Longrightarrow> foldl apply_upsert c ops k = c k"
  by (induction ops arbitrary: c) (simp_all add: apply_upsert_other)

lemma field_at_foldl_last:
  assumes "toSet op f = Some v" and "hash_name op \<notin> hash_name ` set post"
  shows "field_at (foldl apply_upsert c (pre @ op # post)) (hash_name op) f = Some v"
proof -
  let ?c = "apply_upsert (foldl apply_upsert c pre) op"
  have "foldl apply_upsert c (pre @ op # post) (hash_name op) = ?c (hash_name op)"
    using foldl_upsert_other [OF assms(2), of ?c] by simp
  then have "field_at (foldl apply_upsert c (pre @ op # post)) (hash_name op) f
      = field_at ?c (hash_name op) f"
    by (simp add: field_at_def)
  with field_at_upserted [OF assms(1)] show ?thesis
    by simp
qed

lemma field_at_foldl_present:
  assumes "op \<in> set ops" and "toSet op f = Some v"
  shows "field_at (foldl apply_upsert c ops) (hash_name op) f \<noteq> None"
proof -
  from assms(1) obtain pre post where ops: "ops = pre @ op # post"
    by (auto simp: in_set_conv_decomp)
  let ?c = "apply_upsert (foldl apply_upsert c pre) op"
  from field_at_upserted [OF assms(2), of "foldl apply_upsert c pre"]
  obtain d where d: "?c (hash_name op) = Some d" "d f = Some v"
    by (auto simp: field_at_def split: option.splits)
  have "persists ?c (foldl apply_upsert ?c post)"
    by (rule persists_foldl_upsert)
  with d obtain d' where "foldl apply_upsert ?c post (hash_name op) = Some d'" "dom d \<subseteq> dom d'"
    unfolding persists_def by blast
  with d(2) show ?thesis
    unfolding ops by (auto simp: field_at_def)
qed

text \<open>
  C6. pushToDB queues one upsert for every item of the page, in the order of the items,
  keyed by the item's \<^verbatim>\<open>hash_name\<close>, and each sets exactly \<^verbatim>\<open>sell_price\<close> and the
  item properties that are in the configured list: \<^verbatim>\<open>sell_price\<close> is set to the item's
  price for every item, whatever the list, and no field outside the list is set. When the
  batch is written, the document of every item holds every field its upsert sets, with the
  value set by the item unless a later item of the page has the same key; and whatever the
  outcome of the batch, no field outside the list (other than the price, and the key the
  document is found by) changes in any document of the store.
\<close>

theorem upsert_writes_price_and_whitelist:
  assumes built: "build_bulk wl items = Inr ops"
  shows "length ops = length items
    \<and> (\<forall>i < length items.
          item_op wl (items ! i) = Inr (ops ! i)
          \<and> js_get (items ! i) ''hash_name'' = Inr (hash_name (ops ! i))
          \<and> dom (toSet (ops ! i)) = {''sell_price''} \<union> (set ITEM_PROPERTIES \<inter> set wl)
          \<and> (\<exists>price. js_get (items ! i) ''sell_price'' = Inr price
                \<and> toSet (ops ! i) ''sell_price'' = Some price)
          \<and> (\<forall>f. f \<notin> set wl \<and> f \<noteq> ''sell_price'' \<longrightarrow> toSet (ops ! i) f = None))
    \<and> (items \<noteq> [] \<longrightarrow> pushToDB ExecOk wl items c = (Inr (), foldl apply_upsert c ops))
    \<and> (\<forall>i < length items. \<forall>f v. toSet (ops ! i) f = Some v \<longrightarrow>
          field_at (snd (pushToDB ExecOk wl items c)) (hash_name (ops ! i)) f \<noteq> None
          \<and> ((\<forall>j < length items. i < j \<longrightarrow> hash_name (ops ! j) \<noteq> hash_name (ops ! i)) \<longrightarrow>
               field_at (snd (pushToDB ExecOk wl items c)) (hash_name (ops ! i)) f = Some v))
    \<and> (\<forall>f k. f \<notin> set wl \<and> f \<noteq> ''sell_price'' \<and> f \<noteq> ''hash_name'' \<longrightarrow>
          field_at (snd (pushToDB outcome wl items c)) k f = field_at c k f)"
proof (intro conjI allI impI)
  show len: "length ops = length items"
    by (rule build_bulk_length [OF built])
  have push: "pushToDB ExecOk wl items c = (Inr (), foldl apply_upsert c ops)" if "items \<noteq> []"
    using built len that by (auto simp: pushToDB_def)
  show "pushToDB ExecOk wl items c = (Inr (), foldl apply_upsert c ops)" if "items \<noteq> []"
    by (rule push [OF that])
  {
    fix i assume i: "i < length items"
    have op: "item_op wl (items ! i) = Inr (ops ! i)"
      by (rule build_bulk_nth [OF built i])
    show "item_op wl (items ! i) = Inr (ops ! i)"
      by (rule op)
    from item_op_Inr [OF op] show "js_get (items ! i) ''hash_name'' = Inr (hash_name (ops ! i))"
      by blast
    show d: "dom (toSet (ops ! i)) = {''sell_price''} \<union> (set ITEM_PROPERTIES \<inter> set wl)"
      by (rule dom_item_op [OF op])
    show "\<exists>price. js_get (items ! i) ''sell_price'' = Inr price
                \<and> toSet (ops ! i) ''sell_price'' = Some price"
      by (rule item_op_sell_price [OF op])
    {
      fix f assume "f \<notin> set wl \<and> f \<noteq> ''sell_price''"
      with d have "f \<notin> dom (toSet (ops ! i))" by simp
      then show "toSet (ops ! i) f = None" by blast
    }
    fix f v assume set: "toSet (ops ! i) f = Some v"
    from i have some: "items \<noteq> []" by auto
    from i len have mem: "ops ! i \<in> set ops" by simp
    from field_at_foldl_present [OF mem set]
    show "field_at (snd (pushToDB ExecOk wl items c)) (hash_name (ops ! i)) f \<noteq> None"
      by (simp add: push [OF some])
    assume last: "\<forall>j < length items. i < j \<longrightarrow> hash_name (ops ! j) \<noteq> hash_name (ops ! i)"
    from i len have split: "ops = take i ops @ ops ! i # drop (Suc i) ops"
      by (simp add: id_take_nth_drop)
    have "hash_name (ops ! i) \<notin> hash_name ` set (drop (Suc i) ops)"
    proof
      assume "hash_name (ops ! i) \<in> hash_name ` set (drop (Suc i) ops)"
      then obtain o2 where o2: "o2 \<in> set (drop (Suc i) ops)" "hash_name o2 = hash_name (ops ! i)"
        by auto
      from o2(1) obtain m where m: "m < length (drop (Suc i) ops)" "o2 = drop (Suc i) ops ! m"
        by (auto simp: in_set_conv_nth)
      then have "Suc i + m < length items" "o2 = ops ! (Suc i + m)"
        using len by simp_all
      with last o2(2) show False
        by (metis add_Suc less_add_Suc1)
    qed
    from field_at_foldl_last [OF set this, of c "take i ops"] split
    show "field_at (snd (pushToDB ExecOk wl items c)) (hash_name (ops ! i)) f = Some v"
      by (simp add: push [OF some])
  }
next
  fix f k
  assume "f \<notin> set wl \<and> f \<noteq> ''sell_price'' \<and> f \<noteq> ''hash_name''"
  then show "field_at (snd (pushToDB outcome wl items c)) k f = field_at c k f"
    by (intro pushToDB_frame) simp_all
qed

theorem upsert_writes_price_and_whitelist_witness:
  "field_at (snd (pushToDB ExecOk [''name'', ''classid''] [ak_item] stocked_collection))
        (JStr ''AK-47 | Redline'') ''sell_price'' = Some (JNum 1250)
   \<and> field_at (snd (pushToDB ExecOk [''name'', ''classid''] [ak_item] stocked_collection))
        (JStr ''AK-47 | Redline'') ''name'' = Some (JStr ''AK-47'')
   \<and> field_at (snd (pushToDB ExecOk [''name'', ''classid''] [ak_item] stocked_collection))
        (JStr ''AK-47 | Redline'') ''icon_url'' = Some (JStr ''old.png'')
   \<and> field_at stocked_collection (JStr ''AK-47 | Redline'') ''sell_price'' = Some (JNum 1100)"
proof -
  let ?op = "\<lparr>hash_name = JStr ''AK-47 | Redline'',
          toSet = [''sell_price'' \<mapsto> JNum 1250, ''name'' \<mapsto> JStr ''AK-47'',
                   ''classid'' \<mapsto> JStr ''310777'']\<rparr>"
  let ?store = "snd (pushToDB ExecOk [''name'', ''classid''] [ak_item] stocked_collection)"
  have built: "build_bulk [''name'', ''classid''] [ak_item] = Inr [?op]"
    by (simp add: item_op_ak_item)
  have old: "field_at stocked_collection (JStr ''AK-47 | Redline'') ''icon_url'' = Some (JStr ''old.png'')"
    "field_at stocked_collection (JStr ''AK-47 | Redline'') ''sell_price'' = Some (JNum 1100)"
    by (simp_all add: field_at_def stocked_collection_def)
  note all = upsert_writes_price_and_whitelist [OF built, of stocked_collection ExecOk]
  note written = all [THEN conjunct2, THEN conjunct2, THEN conjunct2, THEN conjunct1,
      rule_format, of 0]
  note frame = all [THEN conjunct2, THEN conjunct2, THEN conjunct2, THEN conjunct2,
      rule_format, of "''icon_url''" "JStr ''AK-47 | Redline''"]
  have price: "field_at ?store (JStr ''AK-47 | Redline'') ''sell_price'' = Some (JNum 1250)"
    using written [of "''sell_price''" "JNum 1250"] by simp
  have name: "field_at ?store (JStr ''AK-47 | Redline'') ''name'' = Some (JStr ''AK-47'')"
    using written [of "''name''" "JStr ''AK-47''"] by simp
  have icon: "field_at ?store (JStr ''AK-47 | Redline'') ''icon_url''
      = field_at stocked_collection (JStr ''AK-47 | Redline'') ''icon_url''"
    using frame by simp
  from price name icon old show ?thesis
    by simp
qed

text \<open>
  C10. If an item of a page has no value of its own for one of the configured item
  properties and has no \<^verbatim>\<open>asset_description\<close> either, pushToDB throws a TypeError while
  it builds the batch, for the whole page and before anything is executed: the store is as
  it was. The pass of the loop that fetched the page throws, and with it the cycle: the
  watermark and its file stay as they were.
\<close>

theorem missing_description_throws:
  assumes held: "item \<in> set items"
    and listed: "f \<in> set wl" and known: "f \<in> set ITEM_PROPERTIES"
    and absent: "js_get item f = Inr JUndefined"
    and bare: "js_get item ''asset_description'' = Inr JUndefined"
  shows "pushToDB outcome wl items c = (Inl TypeError, c)
    \<and> (properties s = wl \<and> reply w (requests s) (page_request appID p) = Resolved resp
         \<and> status resp = 200 \<and> body resp = BodyPage pg \<and> success pg \<and> results pg = items
       \<longrightarrow> (\<exists>p' s'. fetchMarketData_pages (Suc n) w appID p s = (Threw TypeError, p', s')
              \<and> collection s' = collection s \<and> fetched p' = fetched p))
    \<and> (properties s = wl \<and> reply w (requests s) (page_request appID initial_progress) = Resolved resp
         \<and> status resp = 200 \<and> body resp = BodyPage pg \<and> success pg \<and> results pg = items
         \<and> appIDs s = appID # others
       \<longrightarrow> (\<exists>s'. updateMarketListingsData (Suc n) w s = (Threw TypeError, s')
              \<and> collection s' = collection s \<and> lastUpdate s' = lastUpdate s
              \<and> lastUpdateFile s' = lastUpdateFile s))"
proof -
  have "item_op wl item = Inl TypeError"
    by (rule item_op_throws [OF listed known absent bare])
  from build_bulk_throws [OF held this]
  have bulk: "build_bulk wl items = Inl TypeError" .
  then have push: "pushToDB outcome wl items c = (Inl TypeError, c)"
    by (simp add: pushToDB_def)
  have loop: "\<exists>p' s'. fetchMarketData_pages (Suc n) w appID q t = (Threw TypeError, p', s')
              \<and> collection s' = collection t \<and> fetched p' = fetched q"
    if "properties t = wl" "reply w (requests t) (page_request appID q) = Resolved resp"
      "status resp = 200" "body resp = BodyPage pg" "success pg" "results pg = items"
    for q t
  proof -
    from that bulk have "build_bulk (properties t) (results pg) = Inl TypeError"
      by simp
    from iteration_push_throws [OF that(2,3,4,5) this] obtain p' s' where
      "fetch_iteration w appID q t = (Fatal TypeError, p', s')"
      "collection s' = collection t" "fetched p' = fetched q"
      by blast
    then show ?thesis
      by (simp add: pages_throw)
  qed
  have cycle: "\<exists>s'. updateMarketListingsData (Suc n) w s = (Threw TypeError, s')
              \<and> collection s' = collection s \<and> lastUpdate s' = lastUpdate s
              \<and> lastUpdateFile s' = lastUpdateFile s"
    if "properties s = wl" "reply w (requests s) (page_request appID initial_progress) = Resolved resp"
      "status resp = 200" "body resp = BodyPage pg" "success pg" "results pg = items"
      "appIDs s = appID # others"
  proof -
    let ?s = "s\<lparr>trace := trace s @ [EvCycleStart]\<rparr>"
    let ?t = "?s\<lparr>trace := trace ?s @ [EvFetching appID]\<rparr>"
    from loop [of ?t initial_progress] that obtain p' s' where
      run: "fetchMarketData_pages (Suc n) w appID initial_progress ?t = (Threw TypeError, p', s')"
      and same: "collection s' = collection s"
      by auto
    from apps_throw [OF run] that(7)
    have "fetchMarketData (Suc n) w ?s = (Threw TypeError, s')"
      by (simp add: fetchMarketData_def)
    from cycle_threw [OF this] same show ?thesis
      by simp
  qed
  from push loop cycle show ?thesis
    by blast
qed

theorem missing_description_throws_witness:
  "pushToDB ExecOk [''name'', ''classid''] [ak_item, bare_item] stocked_collection
      = (Inl TypeError, stocked_collection)
   \<and> (\<exists>s'. updateMarketListingsData (Suc 0) careless_world fresh_observer = (Threw TypeError, s')
              \<and> collection s' = collection fresh_observer \<and> lastUpdate s' = 0
              \<and> lastUpdateFile s' = None)"
proof -
  have held: "bare_item \<in> set [ak_item, bare_item]"
    by simp
  have listed: "''name'' \<in> set [''name'', ''classid'']" and known: "''name'' \<in> set ITEM_PROPERTIES"
    by (simp_all add: ITEM_PROPERTIES_def)
  have absent: "js_get bare_item ''name'' = Inr JUndefined"
    and bare: "js_get bare_item ''asset_description'' = Inr JUndefined"
    by (simp_all add: bare_item_def)
  let ?pg = "\<lparr>success = True, total_count = 2, results = [ak_item, bare_item]\<rparr>"
  let ?resp = "\<lparr>status = 200, body = BodyPage ?pg\<rparr>"
  have page: "properties fresh_observer = [''name'', ''classid'']
     \<and> reply careless_world (requests fresh_observer) (page_request 730 initial_progress)
          = Resolved ?resp
     \<and> status ?resp = 200 \<and> body ?resp = BodyPage ?pg \<and> success ?pg
     \<and> results ?pg = [ak_item, bare_item] \<and> appIDs fresh_observer = 730 # [570]"
    by (simp add: fresh_observer_def careless_world_def steady_world_def ok_page_def)
  from missing_description_throws [OF held listed known absent bare,
      where s = fresh_observer and w = careless_world and appID = 730 and resp = ?resp
        and pg = ?pg and others = "[570]" and n = 0 and outcome = ExecOk
        and c = stocked_collection] page
  show ?thesis
    by (auto simp: fresh_observer_def)
qed

section \<open>Claims about the cycle and its scheduling\<close>
















section \<open>The claim about the throttled queue\<close>

lemma spaced_snoc:
  "spaced d (ts @ [t]) = (spaced d ts \<and> (ts = [] \<or> last ts + d \<le> t))"
  by (induction d ts rule: spaced.induct) auto

lemma queue_run_snoc: "queue_run q (evs @ [ev]) = queue_step (queue_run q evs) ev"
  by (simp add: queue_run_def)

lemma submitted_snoc:
  "submitted (evs @ [(t, Resolve x)]) = submitted evs @ [x]"
  "submitted (evs @ [(t, TimerFires)]) = submitted evs"
  by (simp_all add: submitted_def submission_def List.map_filter_def)

lemma queue_inv_step: "queue_inv q \<Longrightarrow> queue_inv (queue_step q tev)"
proof (cases tev)
  case (Pair t ev)
  assume inv: "queue_inv q"
  show ?thesis
  proof (cases ev)
    case (Resolve x)
    with Pair inv show ?thesis by (simp add: queue_inv_def)
  next
    case TimerFires
    with Pair inv show ?thesis
      by (cases "pending q")
        (auto simp: queue_inv_def spaced_snoc last_map split: option.splits if_splits)
  qed
qed

lemma interval_queue_step: "interval (queue_step q tev) = interval q"
  by (cases tev; cases "snd tev"; cases "pending q") (auto split: option.splits)

lemma fifo_step:
  "map fst (started (queue_step q (t, ev))) @ pending (queue_step q (t, ev))
     = (map fst (started q) @ pending q) @ (case ev of Resolve x \<Rightarrow> [x] | TimerFires \<Rightarrow> [])"
  by (cases ev; cases "pending q") (auto split: option.splits)

lemma queue_run_inv:
  "queue_inv (queue_run (ThrottledQueue d) evs)
   \<and> interval (queue_run (ThrottledQueue d) evs) = d
   \<and> map fst (started (queue_run (ThrottledQueue d) evs)) @ pending (queue_run (ThrottledQueue d) evs)
       = submitted evs"
proof (induction evs rule: rev_induct)
  case Nil
  show ?case
    by (simp add: queue_run_def ThrottledQueue_def queue_inv_def submitted_def)
next
  case (snoc tev evs)
  obtain t ev where tev: "tev = (t, ev)"
    by (cases tev) auto
  let ?q = "queue_run (ThrottledQueue d) evs"
  from snoc have inv: "queue_inv ?q" and int: "interval ?q = d"
    and fifo: "map fst (started ?q) @ pending ?q = submitted evs"
    by simp_all
  have "submitted (evs @ [tev]) = submitted evs @ (case ev of Resolve x \<Rightarrow> [x] | TimerFires \<Rightarrow> [])"
    unfolding tev by (cases ev) (simp_all add: submitted_snoc)
  with fifo fifo_step [of ?q t ev]
  have "map fst (started (queue_step ?q tev)) @ pending (queue_step ?q tev) = submitted (evs @ [tev])"
    unfolding tev by simp
  with queue_inv_step [OF inv, of tev] interval_queue_step [of ?q tev] int
  show ?case
    unfolding queue_run_snoc by simp
qed

lemma spaced_sorted: "0 < d \<Longrightarrow> spaced d ts \<Longrightarrow> sorted_wrt (<) ts"
proof (induction d ts rule: spaced.induct)
  case (3 d t u ts)
  then have tu: "t < u" and rest: "sorted_wrt (<) (u # ts)"
    by simp_all
  from rest have "\<forall>x \<in> set ts. u < x" by simp
  with tu have "\<forall>x \<in> set (u # ts). t < x" by auto
  with rest show ?case by simp
qed simp_all

text \<open>
  C9. Whatever is submitted to the queue of the observer, and whenever, and whenever its
  timer fires: the calls dispatched so far, followed by the calls still pending, are the
  submitted calls in the order of their submission, so dispatches start in that order; and
  the start times of consecutive dispatches are at least \<open>REQUEST_INTERVAL\<close>, 10000 ms,
  apart, hence strictly increasing.
\<close>

theorem dispatches_fifo_and_spaced:
  "map fst (started (queue_run observer_queue evs)) @ pending (queue_run observer_queue evs)
      = submitted evs
   \<and> spaced REQUEST_INTERVAL (map snd (started (queue_run observer_queue evs)))
   \<and> sorted_wrt (<) (map snd (started (queue_run observer_queue evs)))
   \<and> REQUEST_INTERVAL = 10000"
proof -
  let ?q = "queue_run observer_queue evs"
  from queue_run_inv [of REQUEST_INTERVAL evs]
  have fifo: "map fst (started ?q) @ pending ?q = submitted evs"
    and sp: "spaced REQUEST_INTERVAL (map snd (started ?q))"
    by (auto simp: observer_queue_def queue_inv_def)
  have "0 < REQUEST_INTERVAL" and ten: "REQUEST_INTERVAL = 10000"
    by (simp_all add: REQUEST_INTERVAL_def)
  from spaced_sorted [OF this(1) sp] fifo sp ten show ?thesis
    by simp
qed


theorem dispatches_fifo_and_spaced_witness:
  "started (queue_run observer_queue
      [(0, Resolve (page_request 730 initial_progress)), (5, TimerFires),
       (6, Resolve (page_request 570 initial_progress)), (9000, TimerFires),
       (10005, TimerFires), (10006, TimerFires)])
     = [(page_request 730 initial_progress, 5), (page_request 570 initial_progress, 10005)]
   \<and> spaced 10000 [5, 10005]"
  using dispatches_fifo_and_spaced [of
      "[(0, Resolve (page_request 730 initial_progress)), (5, TimerFires),
       (6, Resolve (page_request 570 initial_progress)), (9000, TimerFires),
       (10005, TimerFires), (10006, TimerFires)]"]
  by (simp add: queue_run_def observer_queue_def ThrottledQueue_def REQUEST_INTERVAL_def)

end
